theory Spec2Isabelle
  imports Complex_Main "HOL-Library.Sublist"
begin

section \<open>JavaScript strings\<close>

text \<open>
  A JavaScript string is a sequence of UTF-16 code units. The model uses \<^typ>\<open>string\<close>,
  whose characters are the code units below 256 (ASCII and Latin-1), and gives each string
  method the behaviour it has on such strings. Documents of the search API are modelled
  with the types the requested fields have; a title, where a document has one, is a
  string.
\<close>

definition isWhiteSpace :: "char \<Rightarrow> bool" where
  \<comment> \<open>\<open>\s\<close> of a regular expression and the characters \<open>trim()\<close> strips:
      TAB, LF, VT, FF, CR, SP and NBSP are the ones below 256.\<close>
  "isWhiteSpace c \<longleftrightarrow>
     c \<in> set [CHR 0x09, CHR 0x0A, CHR 0x0B, CHR 0x0C, CHR 0x0D, CHR 0x20, CHR 0xA0]"

definition isLineTerminator :: "char \<Rightarrow> bool" where
  \<comment> \<open>the characters \<open>.\<close> of a regular expression does not match: LF and CR below 256.\<close>
  "isLineTerminator c \<longleftrightarrow> c \<in> set [CHR 0x0A, CHR 0x0D]"

definition isWordChar :: "char \<Rightarrow> bool" where
  \<comment> \<open>\<open>\w\<close> of a regular expression: \<open>[A-Za-z0-9_]\<close>.\<close>
  "isWordChar c \<longleftrightarrow>
     c \<in> set (''ABCDEFGHIJKLMNOPQRSTUVWXYZ'' @ ''abcdefghijklmnopqrstuvwxyz''
              @ ''0123456789'' @ ''_'')"

definition upperCaseLetters :: string where
  \<comment> \<open>the upper-case letters below 256: A-Z, and the Latin-1 letters C0-DE without the
      multiplication sign D7\<close>
  "upperCaseLetters = ''ABCDEFGHIJKLMNOPQRSTUVWXYZ'' @
     [CHR 0xC0, CHR 0xC1, CHR 0xC2, CHR 0xC3, CHR 0xC4, CHR 0xC5, CHR 0xC6, CHR 0xC7,
      CHR 0xC8, CHR 0xC9, CHR 0xCA, CHR 0xCB, CHR 0xCC, CHR 0xCD, CHR 0xCE, CHR 0xCF,
      CHR 0xD0, CHR 0xD1, CHR 0xD2, CHR 0xD3, CHR 0xD4, CHR 0xD5, CHR 0xD6, CHR 0xD8,
      CHR 0xD9, CHR 0xDA, CHR 0xDB, CHR 0xDC, CHR 0xDD, CHR 0xDE]"

definition lowerCaseLetters :: string where
  \<comment> \<open>their lower-case letters, in the same order\<close>
  "lowerCaseLetters = ''abcdefghijklmnopqrstuvwxyz'' @
     [CHR 0xE0, CHR 0xE1, CHR 0xE2, CHR 0xE3, CHR 0xE4, CHR 0xE5, CHR 0xE6, CHR 0xE7,
      CHR 0xE8, CHR 0xE9, CHR 0xEA, CHR 0xEB, CHR 0xEC, CHR 0xED, CHR 0xEE, CHR 0xEF,
      CHR 0xF0, CHR 0xF1, CHR 0xF2, CHR 0xF3, CHR 0xF4, CHR 0xF5, CHR 0xF6, CHR 0xF8,
      CHR 0xF9, CHR 0xFA, CHR 0xFB, CHR 0xFC, CHR 0xFD, CHR 0xFE]"

definition toLowerChar :: "char \<Rightarrow> char" where
  "toLowerChar c =
     (case map_of (zip upperCaseLetters lowerCaseLetters) c of None \<Rightarrow> c | Some l \<Rightarrow> l)"

definition toLowerCase :: "string \<Rightarrow> string" where
  "toLowerCase s = map toLowerChar s"

definition trim :: "string \<Rightarrow> string" where
  "trim s = rev (dropWhile isWhiteSpace (rev (dropWhile isWhiteSpace s)))"

fun startsWith :: "string \<Rightarrow> string \<Rightarrow> bool" where
  "startsWith s [] = True"
| "startsWith [] (p # ps) = False"
| "startsWith (c # cs) (p # ps) = (c = p \<and> startsWith cs ps)"

fun includes_str :: "string \<Rightarrow> string \<Rightarrow> bool" where
  "includes_str [] p = (p = [])"
| "includes_str (c # cs) p = (startsWith (c # cs) p \<or> includes_str cs p)"

text \<open>
  \<open>s.split(/\s+/)\<close>: the pieces of \<open>s\<close> between the maximal runs of white space. A run at
  the start or at the end leaves an empty piece there, and the empty string gives one
  empty piece.
\<close>

function splitWhiteSpaceFrom :: "string \<Rightarrow> string \<Rightarrow> string list" where
  "splitWhiteSpaceFrom piece [] = [piece]"
| "splitWhiteSpaceFrom piece (c # cs) =
     (if isWhiteSpace c then piece # splitWhiteSpaceFrom [] (dropWhile isWhiteSpace cs)
      else splitWhiteSpaceFrom (piece @ [c]) cs)"
  by pat_completeness auto
termination
  by (relation "measure (\<lambda>(piece, s). length s)")
    (auto simp: le_imp_less_Suc length_dropWhile_le)

definition splitWhiteSpace :: "string \<Rightarrow> string list" where
  "splitWhiteSpace s = splitWhiteSpaceFrom [] s"

text \<open>\<open>s.split('\n')\<close>: the pieces of \<open>s\<close> between the occurrences of the separator.\<close>

fun splitCharFrom :: "char \<Rightarrow> string \<Rightarrow> string \<Rightarrow> string list" where
  "splitCharFrom sep piece [] = [piece]"
| "splitCharFrom sep piece (c # cs) =
     (if c = sep then piece # splitCharFrom sep [] cs
      else splitCharFrom sep (piece @ [c]) cs)"

definition splitChar :: "char \<Rightarrow> string \<Rightarrow> string list" where
  "splitChar sep s = splitCharFrom sep [] s"

section \<open>JavaScript numbers\<close>

text \<open>
  A JavaScript number is an IEEE 754 double. A finite double is modelled by the rational
  it denotes, and each arithmetic operation computes the exact result and rounds it to
  the nearest double, ties to even: 53 significant bits, here for results in the normal
  range (no overflow and no subnormal results, which the scores below are far from).
\<close>

definition roundTiesToEven :: "rat \<Rightarrow> int" where
  "roundTiesToEven x = (let f = \<lfloor>x\<rfloor>; d = x - of_int f in
     if d < 1 / 2 then f else if 1 / 2 < d then f + 1 else if even f then f else f + 1)"

function halvings :: "rat \<Rightarrow> nat" where
  "halvings x = (if x < 2 then 0 else Suc (halvings (x / 2)))"
  by pat_completeness auto
termination
proof (relation "measure (\<lambda>x. nat \<lfloor>x\<rfloor>)")
  fix x :: rat
  assume "\<not> x < 2"
  then have "\<lfloor>x / 2\<rfloor> < \<lfloor>x\<rfloor>" "0 < \<lfloor>x\<rfloor>"
    by linarith+
  then show "(x / 2, x) \<in> measure (\<lambda>x. nat \<lfloor>x\<rfloor>)"
    by simp
qed simp

function doublings :: "rat \<Rightarrow> nat" where
  "doublings x = (if x \<le> 0 \<or> 1 \<le> x then 0 else Suc (doublings (2 * x)))"
  by pat_completeness auto
termination
proof (relation "measure (\<lambda>x. nat \<lceil>1 / x\<rceil>)")
  fix x :: rat
  assume "\<not> (x \<le> 0 \<or> 1 \<le> x)"
  then have x: "0 < x" "x < 1"
    by auto
  then have y: "1 < 1 / x"
    by simp
  then have "2 \<le> \<lceil>1 / x\<rceil>"
    by linarith
  then have "(2::rat) \<le> of_int \<lceil>1 / x\<rceil>"
    by linarith
  then have "(of_int \<lceil>1 / x\<rceil> :: rat) / 2 \<le> of_int \<lceil>1 / x\<rceil> - 1"
    by linarith
  moreover have "1 / x \<le> of_int \<lceil>1 / x\<rceil>"
    by linarith
  then have "1 / x / 2 \<le> (of_int \<lceil>1 / x\<rceil> :: rat) / 2"
    by (rule divide_right_mono) simp
  ultimately have "1 / x / 2 \<le> of_int \<lceil>1 / x\<rceil> - 1"
    by (rule order_trans [rotated])
  then have "\<lceil>1 / x / 2\<rceil> < \<lceil>1 / x\<rceil>"
    by (simp only: ceiling_less_iff)
  moreover have e: "1 / (2 * x) = 1 / x / 2"
    by simp
  ultimately have "\<lceil>1 / (2 * x)\<rceil> < \<lceil>1 / x\<rceil>"
    by (simp only: e)
  moreover have "0 < \<lceil>1 / x\<rceil>"
    using y by linarith
  ultimately show "(2 * x, x) \<in> measure (\<lambda>x. nat \<lceil>1 / x\<rceil>)"
    by simp
qed simp

declare halvings.simps [simp del] doublings.simps [simp del]

definition binade :: "rat \<Rightarrow> int" where
  \<comment> \<open>the exponent \<open>e\<close> with \<open>2^e \<le> x < 2^(e+1)\<close>, for positive \<open>x\<close>\<close>
  "binade x = (if 1 \<le> x then int (halvings x) else - int (doublings x))"

definition ulp :: "rat \<Rightarrow> rat" where
  \<comment> \<open>the distance between the doubles of the binade of \<open>x\<close>\<close>
  "ulp x = 2 powi (binade \<bar>x\<bar> - 52)"

definition toDouble :: "rat \<Rightarrow> rat" where
  "toDouble x = (if x = 0 then 0 else of_int (roundTiesToEven (x / ulp x)) * ulp x)"

definition js_add :: "rat \<Rightarrow> rat \<Rightarrow> rat" where
  "js_add x y = toDouble (x + y)"

definition js_mul :: "rat \<Rightarrow> rat \<Rightarrow> rat" where
  "js_mul x y = toDouble (x * y)"

definition js_div :: "rat \<Rightarrow> rat \<Rightarrow> rat" where
  \<comment> \<open>used with a non-zero divisor only\<close>
  "js_div x y = toDouble (x / y)"

definition Math_round :: "rat \<Rightarrow> int" where
  \<comment> \<open>the nearest integer, a tie going up\<close>
  "Math_round x = \<lfloor>x + 1 / 2\<rfloor>"

subsection \<open>Rounding to a double is monotone\<close>

lemma roundTiesToEven_bounds:
  "of_int (roundTiesToEven x) \<le> x + 1 / 2" "x - 1 / 2 \<le> of_int (roundTiesToEven x)"
  "\<lfloor>x\<rfloor> \<le> roundTiesToEven x" "roundTiesToEven x \<le> \<lfloor>x\<rfloor> + 1"
  unfolding roundTiesToEven_def Let_def by (auto; linarith)+

lemma roundTiesToEven_of_int [simp]: "roundTiesToEven (of_int n) = n"
  by (simp add: roundTiesToEven_def)

lemma roundTiesToEven_mono:
  assumes "x \<le> y"
  shows "roundTiesToEven x \<le> roundTiesToEven y"
proof (cases "\<lfloor>x\<rfloor> = \<lfloor>y\<rfloor>")
  case True
  with assms show ?thesis
    by (auto simp: roundTiesToEven_def Let_def)
next
  case False
  with assms have "\<lfloor>x\<rfloor> + 1 \<le> \<lfloor>y\<rfloor>"
    using floor_mono [of x y] by linarith
  with roundTiesToEven_bounds(4) [of x] roundTiesToEven_bounds(3) [of y]
  show ?thesis
    by linarith
qed

lemma halvings_bounds:
  "1 \<le> x \<Longrightarrow> 2 ^ halvings x \<le> x \<and> x < 2 * 2 ^ halvings x"
proof (induction x rule: halvings.induct)
  case (1 x)
  show ?case
  proof (cases "x < 2")
    case True
    then have "halvings x = 0"
      by (subst halvings.simps) simp
    with True "1.prems" show ?thesis by simp
  next
    case False
    then have "1 \<le> x / 2" by simp
    with "1.IH" False have "2 ^ halvings (x / 2) \<le> x / 2 \<and> x / 2 < 2 * 2 ^ halvings (x / 2)"
      by blast
    moreover have "halvings x = Suc (halvings (x / 2))"
      using False by (subst halvings.simps) simp
    ultimately show ?thesis
      by simp
  qed
qed

lemma doublings_bounds:
  "0 < x \<Longrightarrow> x < 1 \<Longrightarrow> 1 \<le> x * 2 ^ doublings x \<and> x * 2 ^ doublings x < 2"
proof (induction x rule: doublings.induct)
  case (1 x)
  show ?case
  proof (cases "1 \<le> 2 * x")
    case True
    then have "doublings (2 * x) = 0"
      by (subst doublings.simps) simp
    moreover have "doublings x = Suc (doublings (2 * x))"
      using "1.prems" by (subst doublings.simps) simp
    ultimately show ?thesis
      using True "1.prems" by simp
  next
    case False
    with "1.IH" "1.prems"
    have "1 \<le> 2 * x * 2 ^ doublings (2 * x) \<and> 2 * x * 2 ^ doublings (2 * x) < 2"
      by simp
    moreover have "doublings x = Suc (doublings (2 * x))"
      using "1.prems" by (subst doublings.simps) simp
    ultimately show ?thesis
      by (simp add: mult.assoc mult.left_commute)
  qed
qed

lemma binade_bounds:
  assumes "0 < x"
  shows "2 powi binade x \<le> x" "x < 2 powi (binade x + 1)"
proof -
  have step: "(2::rat) powi (binade x + 1) = 2 powi binade x * 2"
    by (simp add: power_int_add)
  have "2 powi binade x \<le> x \<and> x < 2 powi binade x * 2"
  proof (cases "1 \<le> x")
    case True
    then show ?thesis
      using halvings_bounds [of x] by (simp add: binade_def mult.commute)
  next
    case False
    then have d: "1 \<le> x * 2 ^ doublings x" "x * 2 ^ doublings x < 2"
      using assms doublings_bounds [of x] by simp_all
    have p: "(2::rat) powi binade x = 1 / 2 ^ doublings x"
      using False by (simp add: binade_def power_int_minus field_simps)
    show ?thesis
      unfolding p using d by (simp add: field_simps)
  qed
  then show "2 powi binade x \<le> x" "x < 2 powi (binade x + 1)"
    unfolding step by simp_all
qed

lemma binade_mono:
  assumes "0 < x" "x \<le> y"
  shows "binade x \<le> binade y"
proof (rule ccontr)
  assume "\<not> binade x \<le> binade y"
  then have "binade y + 1 \<le> binade x"
    by simp
  then have "(2::rat) powi (binade y + 1) \<le> 2 powi binade x"
    by (rule power_int_increasing) simp
  then show False
    using binade_bounds(1) [of x] binade_bounds(2) [of y] assms by linarith
qed


lemma ulp_pos: "0 < ulp x"
  by (simp add: ulp_def zero_less_power_int)

lemma toDouble_pos:
  assumes "0 < x"
  shows "toDouble x = of_int (roundTiesToEven (x / (2 powi (binade x - 52)))) * 2 powi (binade x - 52)"
  using assms by (simp add: toDouble_def ulp_def)

lemma toDouble_binade_bounds:
  assumes "0 < x"
  shows "2 powi binade x \<le> toDouble x" "toDouble x \<le> 2 powi (binade x + 1)"
proof -
  define u :: rat where "u = 2 powi (binade x - 52)"
  have u: "0 < u"
    by (simp add: u_def zero_less_power_int)
  have lo: "2 powi binade x = 2 ^ 52 * u"
    unfolding u_def by (simp add: power_int_diff)
  have hi: "2 powi (binade x + 1) = 2 ^ 53 * u"
    unfolding u_def by (simp add: power_int_diff power_int_add)
  have "2 ^ 52 * u \<le> x" "x < 2 ^ 53 * u"
    using binade_bounds [OF assms] lo hi by simp_all
  then have "of_int (2 ^ 52) \<le> x / u" "x / u \<le> of_int (2 ^ 53)"
    using u by (simp_all add: field_simps)
  then have "roundTiesToEven (of_int (2 ^ 52)) \<le> roundTiesToEven (x / u)"
    "roundTiesToEven (x / u) \<le> roundTiesToEven (of_int (2 ^ 53))"
    by (simp_all only: roundTiesToEven_mono)
  then have "2 ^ 52 \<le> roundTiesToEven (x / u)" "roundTiesToEven (x / u) \<le> 2 ^ 53"
    by (simp_all only: roundTiesToEven_of_int)
  then have "(of_int (2 ^ 52) :: rat) \<le> of_int (roundTiesToEven (x / u))"
    "(of_int (roundTiesToEven (x / u)) :: rat) \<le> of_int (2 ^ 53)"
    by (simp_all only: of_int_le_iff)
  then have "(2 ^ 52 :: rat) \<le> of_int (roundTiesToEven (x / u))"
    "(of_int (roundTiesToEven (x / u)) :: rat) \<le> 2 ^ 53"
    by simp_all
  then have "2 ^ 52 * u \<le> of_int (roundTiesToEven (x / u)) * u"
    "of_int (roundTiesToEven (x / u)) * u \<le> 2 ^ 53 * u"
    using u by (simp_all only: mult_le_cancel_right_pos)
  then show "2 powi binade x \<le> toDouble x" "toDouble x \<le> 2 powi (binade x + 1)"
    unfolding lo hi toDouble_pos [OF assms] u_def by simp_all
qed

lemma toDouble_mono_pos:
  assumes "0 < x" "x \<le> y"
  shows "toDouble x \<le> toDouble y"
proof (cases "binade x = binade y")
  case True
  define u :: rat where "u = 2 powi (binade y - 52)"
  have u: "0 < u"
    by (simp add: u_def zero_less_power_int)
  have "x / u \<le> y / u"
    using assms u by (simp add: divide_right_mono)
  then have "roundTiesToEven (x / u) \<le> roundTiesToEven (y / u)"
    by (rule roundTiesToEven_mono)
  then have "(of_int (roundTiesToEven (x / u)) :: rat) * u \<le> of_int (roundTiesToEven (y / u)) * u"
    using u by (simp only: mult_le_cancel_right_pos of_int_le_iff)
  then show ?thesis
    using assms True by (simp add: toDouble_pos u_def)
next
  case False
  then have "binade x + 1 \<le> binade y"
    using binade_mono [OF assms] by simp
  then have "(2::rat) powi (binade x + 1) \<le> 2 powi binade y"
    by (rule power_int_increasing) simp
  moreover have "toDouble x \<le> 2 powi (binade x + 1)"
    using assms by (simp add: toDouble_binade_bounds)
  moreover have "2 powi binade y \<le> toDouble y"
    using assms by (simp add: toDouble_binade_bounds)
  ultimately show ?thesis
    by linarith
qed

lemma toDouble_zero [simp]: "toDouble 0 = 0"
  by (simp add: toDouble_def)

lemma toDouble_nonneg:
  assumes "0 \<le> x"
  shows "0 \<le> toDouble x"
proof (cases "x = 0")
  case False
  with assms have "0 < x" by simp
  then have "2 powi binade x \<le> toDouble x"
    by (rule toDouble_binade_bounds)
  moreover have "(0::rat) < 2 powi binade x"
    by (simp add: zero_less_power_int)
  ultimately show ?thesis by linarith
qed simp

lemma toDouble_le:
  assumes "0 \<le> x" "x \<le> c" "toDouble c = c"
  shows "toDouble x \<le> c"
proof (cases "x = 0")
  case True
  with assms show ?thesis by simp
next
  case False
  with assms have "0 < x" by simp
  then have "toDouble x \<le> toDouble c"
    using assms(2) by (rule toDouble_mono_pos)
  with assms(3) show ?thesis by simp
qed

text \<open>An integer below \<open>2^53\<close> is a double.\<close>

lemma toDouble_of_int:
  assumes "0 \<le> n" "n < 2 ^ 53"
  shows "toDouble (of_int n) = of_int n"
proof (cases "n = 0")
  case True
  then show ?thesis by simp
next
  case False
  define x :: rat where "x = of_int n"
  have x: "1 \<le> x" "x < 2 ^ 53"
    using assms False by (simp_all add: x_def)
  then have pos: "0 < x"
    by simp
  have lo: "0 \<le> binade x"
    using x by (simp add: binade_def)
  have hi: "binade x \<le> 52"
  proof (rule ccontr)
    assume "\<not> binade x \<le> 52"
    then have "53 \<le> binade x"
      by simp
    then have "(2::rat) powi 53 \<le> 2 powi binade x"
      by (rule power_int_increasing) simp
    then show False
      using binade_bounds(1) [OF pos] x by simp
  qed
  define k where "k = nat (52 - binade x)"
  have u: "(2::rat) powi (binade x - 52) = 1 / 2 ^ k"
  proof -
    have "binade x - 52 = - int k"
      using hi by (simp add: k_def)
    then have "(2::rat) powi (binade x - 52) = 2 powi (- int k)"
      by simp
    also have "\<dots> = 1 / 2 ^ k"
      by (simp add: power_int_minus field_simps)
    finally show ?thesis .
  qed
  have "x / (1 / 2 ^ k) = of_int (n * 2 ^ k)"
    by (simp add: x_def)
  then have "roundTiesToEven (x / (1 / 2 ^ k)) = n * 2 ^ k"
    by (simp only: roundTiesToEven_of_int)
  then have "toDouble x = of_int (n * 2 ^ k) * (1 / 2 ^ k)"
    using pos by (simp only: toDouble_pos u)
  then show ?thesis
    by (simp add: x_def)
qed

lemma toDouble_numeral [simp]:
  "numeral k < (2 ^ 53 :: int) \<Longrightarrow> toDouble (numeral k) = numeral k"
  using toDouble_of_int [of "numeral k"] by simp

lemma toDouble_one [simp]: "toDouble 1 = 1"
  using toDouble_of_int [of 1] by simp

lemma Math_round_of_int [simp]: "Math_round (of_int n) = n"
  unfolding Math_round_def by linarith

lemma Math_round_numeral [simp]: "Math_round (numeral k) = numeral k"
  using Math_round_of_int [of "numeral k"] by simp

lemma ulp_code [code]:
  "ulp x = (let e = binade \<bar>x\<bar> - 52 in
     if 0 \<le> e then of_int (2 ^ nat e) else 1 / of_int (2 ^ nat (- e)))"
  by (simp add: ulp_def Let_def power_int_def field_simps)

section \<open>The title match score\<close>

text \<open>
  The inner loop of \<open>calculateTitleMatch\<close> over the words of the title: it stops at the
  first word equal to the query word, and remembers whether a word before it was a
  prefix of the query word or had it as a prefix.
\<close>

fun scanTitleWords :: "string \<Rightarrow> string list \<Rightarrow> bool \<Rightarrow> bool \<times> bool" where
  "scanTitleWords qWord [] foundPartial = (False, foundPartial)"
| "scanTitleWords qWord (tWord # tWords) foundPartial =
     (if tWord = qWord then (True, foundPartial)
      else if startsWith tWord qWord \<or> startsWith qWord tWord
      then scanTitleWords qWord tWords True
      else scanTitleWords qWord tWords foundPartial)"

text \<open>The outer loop: the counters \<open>matchedWords\<close> and \<open>partialMatches\<close>.\<close>

fun countMatches :: "string list \<Rightarrow> string list \<Rightarrow> nat \<times> nat \<Rightarrow> nat \<times> nat" where
  "countMatches [] titleWords (matchedWords, partialMatches) = (matchedWords, partialMatches)"
| "countMatches (qWord # qWords) titleWords (matchedWords, partialMatches) =
     (let (foundExact, foundPartial) = scanTitleWords qWord titleWords False in
      if foundExact then countMatches qWords titleWords (matchedWords + 1, partialMatches)
      else if foundPartial then countMatches qWords titleWords (matchedWords, partialMatches + 1)
      else countMatches qWords titleWords (matchedWords, partialMatches))"

definition calculateTitleMatch :: "string \<Rightarrow> string \<Rightarrow> int" where
  "calculateTitleMatch title query =
     (if title = [] \<or> query = [] then 0
      else
        let normalizedTitle = trim (toLowerCase title);
            normalizedQuery = trim (toLowerCase query)
        in
          if normalizedTitle = normalizedQuery then 100
          else if startsWith normalizedTitle normalizedQuery then 95
          else if startsWith normalizedQuery normalizedTitle then 90
          else if includes_str normalizedTitle normalizedQuery then 85
          else
            let queryWords = filter (\<lambda>w. 1 < length w) (splitWhiteSpace normalizedQuery);
                titleWords = splitWhiteSpace normalizedTitle
            in
              if length queryWords = 0 then 0
              else
                let (matchedWords, partialMatches) = countMatches queryWords titleWords (0, 0);
                    exactRatio = js_div (of_nat matchedWords) (of_nat (length queryWords));
                    partialRatio = js_div (of_nat partialMatches) (of_nat (length queryWords))
                in Math_round (js_add (js_mul exactRatio 70) (js_mul partialRatio 20)))"

subsection \<open>The range of the score\<close>

lemma countMatches_le:
  "countMatches qs ts (m, p) = (m', p') \<Longrightarrow> m' + p' \<le> m + p + length qs"
proof (induction qs arbitrary: m p)
  case Nil
  then show ?case by simp
next
  case (Cons q qs)
  obtain e f where s: "scanTitleWords q ts False = (e, f)"
    by (cases "scanTitleWords q ts False")
  show ?case
  proof (cases e)
    case True
    with Cons.prems s have "countMatches qs ts (m + 1, p) = (m', p')" by simp
    from Cons.IH [OF this] show ?thesis by simp
  next
    case False
    show ?thesis
    proof (cases f)
      case True
      with Cons.prems s \<open>\<not> e\<close> have "countMatches qs ts (m, p + 1) = (m', p')" by simp
      from Cons.IH [OF this] show ?thesis by simp
    next
      case False
      with Cons.prems s \<open>\<not> e\<close> have "countMatches qs ts (m, p) = (m', p')" by simp
      from Cons.IH [OF this] show ?thesis by simp
    qed
  qed
qed

lemma ratio_bounds:
  assumes "k \<le> n" "0 < n"
  shows "0 \<le> js_div (of_nat k) (of_nat n)" "js_div (of_nat k) (of_nat n) \<le> 1"
proof -
  have q: "(0::rat) \<le> of_nat k / of_nat n" "(of_nat k :: rat) / of_nat n \<le> 1"
    using assms by simp_all
  show "0 \<le> js_div (of_nat k) (of_nat n)"
    unfolding js_div_def using q(1) by (rule toDouble_nonneg)
  show "js_div (of_nat k) (of_nat n) \<le> 1"
    unfolding js_div_def using q toDouble_one by (rule toDouble_le)
qed

lemma js_mul_bounds:
  assumes "0 \<le> r" "r \<le> 1" "0 \<le> c" "toDouble c = c"
  shows "0 \<le> js_mul r c" "js_mul r c \<le> c"
proof -
  have q: "0 \<le> r * c" "r * c \<le> c"
    using assms(1-3) by (simp_all add: mult_left_le_one_le)
  show "0 \<le> js_mul r c"
    unfolding js_mul_def using q(1) by (rule toDouble_nonneg)
  show "js_mul r c \<le> c"
    unfolding js_mul_def using q assms(4) by (rule toDouble_le)
qed

lemma wordScore_bounds:
  assumes "m \<le> n" "p \<le> n" "0 < n"
  shows "0 \<le> Math_round (js_add (js_mul (js_div (of_nat m) (of_nat n)) 70)
                                 (js_mul (js_div (of_nat p) (of_nat n)) 20))"
    and "Math_round (js_add (js_mul (js_div (of_nat m) (of_nat n)) 70)
                            (js_mul (js_div (of_nat p) (of_nat n)) 20)) \<le> 90"
proof -
  define a where "a = js_mul (js_div (of_nat m) (of_nat n)) 70"
  define b where "b = js_mul (js_div (of_nat p) (of_nat n)) 20"
  have a: "0 \<le> a" "a \<le> 70"
    unfolding a_def using ratio_bounds [OF assms(1,3)]
    by (simp_all add: js_mul_bounds)
  have b: "0 \<le> b" "b \<le> 20"
    unfolding b_def using ratio_bounds [OF assms(2,3)]
    by (simp_all add: js_mul_bounds)
  have s: "0 \<le> a + b" "a + b \<le> 90"
    using a b by linarith+
  have "0 \<le> js_add a b"
    unfolding js_add_def using s(1) by (rule toDouble_nonneg)
  moreover have "js_add a b \<le> 90"
    unfolding js_add_def using s by (rule toDouble_le) simp
  ultimately have "0 \<le> Math_round (js_add a b)" "Math_round (js_add a b) \<le> 90"
    unfolding Math_round_def by linarith+
  then show "0 \<le> Math_round (js_add (js_mul (js_div (of_nat m) (of_nat n)) 70)
                                 (js_mul (js_div (of_nat p) (of_nat n)) 20))"
    and "Math_round (js_add (js_mul (js_div (of_nat m) (of_nat n)) 70)
                            (js_mul (js_div (of_nat p) (of_nat n)) 20)) \<le> 90"
    unfolding a_def b_def by simp_all
qed

lemma calculateTitleMatch_words:
  assumes "countMatches qs ts (0, 0) = (m, p)" "qs \<noteq> []"
  shows "0 \<le> Math_round (js_add (js_mul (js_div (of_nat m) (of_nat (length qs))) 70)
                                 (js_mul (js_div (of_nat p) (of_nat (length qs))) 20))"
    and "Math_round (js_add (js_mul (js_div (of_nat m) (of_nat (length qs))) 70)
                            (js_mul (js_div (of_nat p) (of_nat (length qs))) 20)) \<le> 90"
proof -
  have "m + p \<le> length qs"
    using countMatches_le [OF assms(1)] by simp
  then have "m \<le> length qs" "p \<le> length qs" "0 < length qs"
    using assms(2) by simp_all
  then show "0 \<le> Math_round (js_add (js_mul (js_div (of_nat m) (of_nat (length qs))) 70)
                                 (js_mul (js_div (of_nat p) (of_nat (length qs))) 20))"
    and "Math_round (js_add (js_mul (js_div (of_nat m) (of_nat (length qs))) 70)
                            (js_mul (js_div (of_nat p) (of_nat (length qs))) 20)) \<le> 90"
    by (rule wordScore_bounds)+
qed

lemma calculateTitleMatch_cases:
  "calculateTitleMatch title query = 100 \<and> title \<noteq> [] \<and> query \<noteq> []
       \<and> trim (toLowerCase title) = trim (toLowerCase query)
   \<or> 0 \<le> calculateTitleMatch title query \<and> calculateTitleMatch title query \<le> 95
       \<and> (title = [] \<or> query = [] \<or> trim (toLowerCase title) \<noteq> trim (toLowerCase query))
       \<and> (title = [] \<or> query = [] \<longrightarrow> calculateTitleMatch title query = 0)"
proof -
  obtain m p where c: "countMatches (filter (\<lambda>w. 1 < length w) (splitWhiteSpace (trim (toLowerCase query))))
      (splitWhiteSpace (trim (toLowerCase title))) (0, 0) = (m, p)"
    by (cases "countMatches (filter (\<lambda>w. 1 < length w) (splitWhiteSpace (trim (toLowerCase query))))
      (splitWhiteSpace (trim (toLowerCase title))) (0, 0)")
  show ?thesis
    using c calculateTitleMatch_words [OF c]
    by (auto simp add: calculateTitleMatch_def Let_def)
qed

text \<open>
  Claim C1. For every title and query, \<open>calculateTitleMatch\<close> returns an integer between
  0 and 100; it returns 0 when either argument is empty; for two non-empty arguments it
  returns 100 exactly when the lower-cased, trimmed title equals the lower-cased, trimmed
  query; and every result other than 100 is at most 95.
\<close>

theorem calculateTitleMatch_range:
  "0 \<le> calculateTitleMatch title query \<and> calculateTitleMatch title query \<le> 100
   \<and> (title = [] \<or> query = [] \<longrightarrow> calculateTitleMatch title query = 0)
   \<and> (title \<noteq> [] \<and> query \<noteq> [] \<longrightarrow>
        (calculateTitleMatch title query = 100
           \<longleftrightarrow> trim (toLowerCase title) = trim (toLowerCase query)))
   \<and> (calculateTitleMatch title query \<noteq> 100 \<longrightarrow> calculateTitleMatch title query \<le> 95)"
  using calculateTitleMatch_cases [of title query] by auto

theorem calculateTitleMatch_range_witness:
  "calculateTitleMatch ''The Hobbit'' ''  the hobbit '' = 100
   \<and> calculateTitleMatch ''The Hobbit'' ''hobbit the extra'' \<le> 95
   \<and> calculateTitleMatch [] ''hobbit'' = 0"
proof -
  have eq: "trim (toLowerCase ''The Hobbit'') = trim (toLowerCase ''  the hobbit '')"
    by code_simp
  have ne: "trim (toLowerCase ''The Hobbit'') \<noteq> trim (toLowerCase ''hobbit the extra'')"
    by code_simp
  have "calculateTitleMatch ''The Hobbit'' ''  the hobbit '' = 100"
    using calculateTitleMatch_range [of "''The Hobbit''" "''  the hobbit ''"] eq by simp
  moreover have "calculateTitleMatch ''The Hobbit'' ''hobbit the extra'' \<le> 95"
    using calculateTitleMatch_range [of "''The Hobbit''" "''hobbit the extra''"] ne by simp
  moreover have "calculateTitleMatch [] ''hobbit'' = 0"
    using calculateTitleMatch_range [of "[]" "''hobbit''"] by simp
  ultimately show ?thesis
    by simp
qed

section \<open>Ranking the search results\<close>

text \<open>
  A document of the search response, with the fields \<open>fetchBooks\<close> asks for. A field the
  response may leave out, and that the code guards with \<open>!\<close>, \<open>||\<close>, \<open>?.\<close> or \<open>? :\<close>, is
  an option: the title is one, which \<open>calculateTitleMatch\<close> guards with \<open>!title\<close>.
\<close>

record doc =
  key :: string
  title :: "string option"
  author_name :: "string list option"
  first_publish_year :: "int option"
  cover_i :: "int option"
  isbn :: "string list option"
  edition_count :: "nat option"
  ratings_average :: "rat option"

text \<open>
  The object that the callback of \<open>data.docs.map\<close> builds for a document. Its title is
  the one of the document, and is missing when the document has none.
\<close>

record scoredBook =
  key :: string
  title :: "string option"
  authors :: string
  year :: "int option"
  cover_i :: "int option"
  isbn :: "string list option"
  editionCount :: nat
  score :: rat
  titleScore :: int

text \<open>
  An entry of the suggestion list: an object that has passed the duplicate filter. The
  filter reads the title of every object it is given as a string, and throws where there
  is none; so a suggestion has a title.
\<close>

record suggestion =
  key :: string
  title :: string
  authors :: string
  year :: "int option"
  cover_i :: "int option"
  isbn :: "string list option"
  editionCount :: nat
  score :: rat
  titleScore :: int

text \<open>What a callback throws: reading a property of \<open>undefined\<close> is a \<open>TypeError\<close>.\<close>

datatype exception = TypeError

fun join :: "string \<Rightarrow> string list \<Rightarrow> string" where
  "join sep [] = []"
| "join sep [x] = x"
| "join sep (x # y # ys) = x @ sep @ join sep (y # ys)"

definition truthyNumber :: "'a::zero option \<Rightarrow> bool" where
  \<comment> \<open>a number is truthy unless it is missing or zero\<close>
  "truthyNumber x = (case x of None \<Rightarrow> False | Some v \<Rightarrow> v \<noteq> 0)"

definition orZero :: "'a::zero option \<Rightarrow> 'a" where
  \<comment> \<open>\<open>x || 0\<close>\<close>
  "orZero x = (case x of None \<Rightarrow> 0 | Some v \<Rightarrow> v)"

definition orNull :: "'a::zero option \<Rightarrow> 'a option" where
  \<comment> \<open>\<open>x || null\<close> on a number\<close>
  "orNull x = (if truthyNumber x then x else None)"

definition titleMatchOf :: "string option \<Rightarrow> string \<Rightarrow> int" where
  \<comment> \<open>\<open>calculateTitleMatch(book.title, cleanQuery)\<close>: \<open>!title\<close> holds of a missing title\<close>
  "titleMatchOf bookTitle query =
     (case bookTitle of None \<Rightarrow> 0 | Some t \<Rightarrow> calculateTitleMatch t query)"

definition scoreBook :: "string \<Rightarrow> doc \<Rightarrow> scoredBook" where
  \<comment> \<open>the callback of \<open>data.docs.map\<close>\<close>
  "scoreBook cleanQuery book =
     (let titleScore = titleMatchOf (doc.title book) cleanQuery;
          popularityScore =
            js_mul (min (js_div (of_nat (orZero (edition_count book))) 100) 1) 20;
          ratingScore = js_mul (orZero (ratings_average book)) 2;
          hasYear = (if truthyNumber (first_publish_year book) then 5 else 0);
          hasCover = (if truthyNumber (doc.cover_i book) then 5 else 0)
      in \<lparr> scoredBook.key = doc.key book,
           scoredBook.title = doc.title book,
           scoredBook.authors = (case author_name book of
                        None \<Rightarrow> ''Unknown author''
                      | Some names \<Rightarrow>
                          (if join '', '' names = [] then ''Unknown author''
                           else join '', '' names)),
           scoredBook.year = orNull (first_publish_year book),
           scoredBook.cover_i = orNull (doc.cover_i book),
           scoredBook.isbn = doc.isbn book,
           scoredBook.editionCount = orZero (edition_count book),
           scoredBook.score = js_add (js_add (js_add (js_add (of_int titleScore) popularityScore)
                     ratingScore) hasYear) hasCover,
           scoredBook.titleScore = titleScore \<rparr>)"

definition sortByScore :: "scoredBook list \<Rightarrow> scoredBook list" where
  \<comment> \<open>\<open>sort((a, b) => b.score - a.score)\<close>: \<open>Array.prototype.sort\<close> is stable, and the
      comparator puts the higher score first.\<close>
  "sortByScore books = sort_key (\<lambda>b. - scoredBook.score b) books"

text \<open>
  \<open>Array.prototype.findIndex\<close> and \<open>Array.prototype.filter\<close> with a callback that may
  throw: they call it on the elements in order, and what it throws leaves them at once.
\<close>

fun findIndex :: "('a \<Rightarrow> exception + bool) \<Rightarrow> 'a list \<Rightarrow> exception + int" where
  "findIndex P [] = Inr (- 1)"
| "findIndex P (x # xs) =
     (case P x of
        Inl e \<Rightarrow> Inl e
      | Inr found \<Rightarrow>
          if found then Inr 0
          else (case findIndex P xs of
                  Inl e \<Rightarrow> Inl e
                | Inr r \<Rightarrow> Inr (if r < 0 then - 1 else r + 1)))"

fun filterThrowing :: "('a \<Rightarrow> exception + bool) \<Rightarrow> 'a list \<Rightarrow> exception + 'a list" where
  "filterThrowing P [] = Inr []"
| "filterThrowing P (x # xs) =
     (case P x of
        Inl e \<Rightarrow> Inl e
      | Inr keep \<Rightarrow>
          (case filterThrowing P xs of
             Inl e \<Rightarrow> Inl e
           | Inr kept \<Rightarrow> Inr (if keep then x # kept else kept)))"

definition normalizeTitle :: "string \<Rightarrow> string" where
  \<comment> \<open>\<open>title.toLowerCase().replace(/[^\w\s]/g, '')\<close>\<close>
  "normalizeTitle t = filter (\<lambda>c. isWordChar c \<or> isWhiteSpace c) (toLowerCase t)"

definition normalizedTitle :: "scoredBook \<Rightarrow> exception + string" where
  \<comment> \<open>\<open>book.title.toLowerCase().replace(/[^\w\s]/g, '')\<close>: a missing title has no
      \<open>toLowerCase\<close>\<close>
  "normalizedTitle book =
     (case scoredBook.title book of None \<Rightarrow> Inl TypeError | Some t \<Rightarrow> Inr (normalizeTitle t))"

definition removeDuplicates :: "scoredBook list \<Rightarrow> exception + scoredBook list" where
  \<comment> \<open>\<open>filter((book, index, arr) => index === arr.findIndex(...))\<close>\<close>
  "removeDuplicates arr =
     (case filterThrowing
          (\<lambda>(index, book).
             case normalizedTitle book of
               Inl e \<Rightarrow> Inl e
             | Inr normalized \<Rightarrow>
                 (case findIndex
                      (\<lambda>b. case normalizedTitle b of
                              Inl e \<Rightarrow> Inl e
                            | Inr other \<Rightarrow> Inr (other = normalized)) arr of
                    Inl e \<Rightarrow> Inl e
                  | Inr first \<Rightarrow> Inr (int index = first)))
          (enumerate 0 arr) of
        Inl e \<Rightarrow> Inl e
      | Inr kept \<Rightarrow> Inr (map snd kept))"

definition suggestionOf :: "scoredBook \<Rightarrow> suggestion option" where
  \<comment> \<open>the object as a suggestion, when it has a title\<close>
  "suggestionOf book =
     (case scoredBook.title book of
        None \<Rightarrow> None
      | Some t \<Rightarrow>
          Some \<lparr> key = scoredBook.key book, title = t, authors = scoredBook.authors book,
                 year = scoredBook.year book, cover_i = scoredBook.cover_i book,
                 isbn = scoredBook.isbn book, editionCount = scoredBook.editionCount book,
                 score = scoredBook.score book, titleScore = scoredBook.titleScore book \<rparr>)"

text \<open>
  The pipeline of \<open>fetchBooks\<close> from \<open>data.docs\<close> to \<open>results\<close>: first the objects
  scored, filtered and sorted, then the duplicate filter and the slice. The objects that
  the duplicate filter has kept have a title, so that all of the first six are
  suggestions.
\<close>

definition sortedMatches :: "string \<Rightarrow> doc list \<Rightarrow> scoredBook list" where
  "sortedMatches cleanQuery docs =
     sortByScore
       (filter (\<lambda>book. 20 \<le> scoredBook.titleScore book \<or> 50 < scoredBook.editionCount book)
          (map (scoreBook cleanQuery) docs))"

definition rankBooks :: "string \<Rightarrow> doc list \<Rightarrow> exception + suggestion list" where
  "rankBooks cleanQuery docs =
     (case removeDuplicates (sortedMatches cleanQuery docs) of
        Inl e \<Rightarrow> Inl e
      | Inr kept \<Rightarrow> Inr (List.map_filter suggestionOf (take 6 kept)))"

subsection \<open>First occurrences\<close>

text \<open>The index \<open>findIndex\<close> returns when the callback does not throw.\<close>

fun firstIndex :: "('a \<Rightarrow> bool) \<Rightarrow> 'a list \<Rightarrow> int" where
  "firstIndex P [] = - 1"
| "firstIndex P (x # xs) =
     (if P x then 0 else let r = firstIndex P xs in if r < 0 then - 1 else r + 1)"

lemma findIndex_firstIndex:
  "\<forall>x\<in>set xs. P x = Inr (Q x) \<Longrightarrow> findIndex P xs = Inr (firstIndex Q xs)"
  by (induction xs) (simp_all add: Let_def)

lemma filterThrowing_filter:
  "\<forall>x\<in>set xs. P x = Inr (Q x) \<Longrightarrow> filterThrowing P xs = Inr (filter Q xs)"
  by (induction xs) simp_all

lemma filterThrowing_throws:
  "x \<in> set xs \<Longrightarrow> P x = Inl TypeError \<Longrightarrow> filterThrowing P xs = Inl TypeError"
proof (induction xs)
  case Nil
  then show ?case by simp
next
  case (Cons y ys)
  have e: "e = TypeError" for e :: exception
    by (cases e) simp
  show ?case
  proof (cases "P y")
    case (Inl e')
    then show ?thesis
      using e [of e'] by simp
  next
    case (Inr keep)
    with Cons.prems have "x \<in> set ys"
      by auto
    from Cons.IH [OF this Cons.prems(2)] Inr show ?thesis
      by simp
  qed
qed

lemma firstIndex_neg_iff: "firstIndex P xs < 0 \<longleftrightarrow> (\<forall>x\<in>set xs. \<not> P x)"
  by (induction xs) (auto simp: Let_def)

lemma firstIndex_ge: "- 1 \<le> firstIndex P xs"
  by (induction xs) (auto simp: Let_def)

lemma firstIndex_less: "firstIndex P xs < int (length xs)"
  by (induction xs) (auto simp: Let_def)

lemma firstIndex_append:
  "firstIndex P (xs @ ys) =
     (if \<exists>x\<in>set xs. P x then firstIndex P xs
      else if firstIndex P ys < 0 then - 1 else int (length xs) + firstIndex P ys)"
proof (induction xs)
  case Nil
  show ?case
    using firstIndex_neg_iff [of P ys] firstIndex_ge [of P ys]
    by (cases "firstIndex P ys < 0") (auto simp: Let_def)
next
  case (Cons x xs)
  show ?case
  proof (cases "P x")
    case True
    then show ?thesis by simp
  next
    case False
    show ?thesis
    proof (cases "\<exists>x\<in>set xs. P x")
      case True
      then show ?thesis
        using False Cons.IH by (simp add: Let_def)
    next
      case False
      then show ?thesis
        using \<open>\<not> P x\<close> Cons.IH by (simp add: Let_def)
    qed
  qed
qed

lemma firstIndex_at_first:
  assumes "P x"
  shows "int (length pre) = firstIndex P (pre @ x # xs) \<longleftrightarrow> (\<forall>y\<in>set pre. \<not> P y)"
proof (cases "\<exists>y\<in>set pre. P y")
  case True
  then have "firstIndex P (pre @ x # xs) = firstIndex P pre"
    by (simp add: firstIndex_append)
  then show ?thesis
    using True firstIndex_less [of P pre] by auto
next
  case False
  then have "firstIndex P (pre @ x # xs) = int (length pre)"
    using assms by (simp add: firstIndex_append)
  then show ?thesis
    using False by auto
qed

text \<open>
  The elements of a list that are the first with their key, the keys of \<open>seen\<close> apart:
  what the duplicate filter computes through \<open>findIndex\<close>, as a recursion.
\<close>

fun firstOccurrences :: "('a \<Rightarrow> 'k) \<Rightarrow> 'k set \<Rightarrow> 'a list \<Rightarrow> 'a list" where
  "firstOccurrences f seen [] = []"
| "firstOccurrences f seen (x # xs) =
     (if f x \<in> seen then firstOccurrences f seen xs
      else x # firstOccurrences f (insert (f x) seen) xs)"

lemma filter_firstIndex_firstOccurrences:
  "map snd (filter (\<lambda>(i, b). int i = firstIndex (\<lambda>b'. f b' = f b) (pre @ xs))
      (enumerate (length pre) xs)) = firstOccurrences f (f ` set pre) xs"
proof (induction xs arbitrary: pre)
  case Nil
  show ?case by simp
next
  case (Cons x xs)
  have hd: "int (length pre) = firstIndex (\<lambda>b'. f b' = f x) (pre @ x # xs) \<longleftrightarrow> f x \<notin> f ` set pre"
  proof -
    have "(\<forall>y\<in>set pre. f y \<noteq> f x) \<longleftrightarrow> f x \<notin> f ` set pre"
      by (simp add: image_iff) metis
    then show ?thesis
      using firstIndex_at_first [of "\<lambda>b'. f b' = f x" x pre xs] by simp
  qed
  have tl: "map snd (filter (\<lambda>(i, b). int i = firstIndex (\<lambda>b'. f b' = f b) (pre @ x # xs))
      (enumerate (Suc (length pre)) xs)) = firstOccurrences f (insert (f x) (f ` set pre)) xs"
    using Cons.IH [of "pre @ [x]"] by simp
  show ?case
  proof (cases "f x \<in> f ` set pre")
    case True
    then have "insert (f x) (f ` set pre) = f ` set pre"
      by auto
    with True hd tl show ?thesis
      by simp
  next
    case False
    with hd tl show ?thesis
      by simp
  qed
qed

lemma firstOccurrences_subset: "set (firstOccurrences f seen xs) \<subseteq> set xs"
  by (induction xs arbitrary: seen) auto

lemma firstOccurrences_unseen: "r \<in> set (firstOccurrences f seen xs) \<Longrightarrow> f r \<notin> seen"
  by (induction xs arbitrary: seen) (auto split: if_splits)

lemma firstOccurrences_distinct: "distinct (map f (firstOccurrences f seen xs))"
  by (induction xs arbitrary: seen) (auto dest: firstOccurrences_unseen)

lemma firstOccurrences_sorted:
  "sorted_wrt R xs \<Longrightarrow> sorted_wrt R (firstOccurrences f seen xs)"
proof (induction xs arbitrary: seen)
  case Nil
  show ?case by simp
next
  case (Cons x xs)
  then show ?case
    using firstOccurrences_subset [of f "insert (f x) seen" xs] by auto
qed

lemma firstOccurrences_top:
  assumes "sorted_wrt (\<lambda>a b. g b \<le> g a) xs" "b \<in> set xs" "f b \<notin> seen"
  shows "(\<exists>r\<in>set (take n (firstOccurrences f seen xs)). f r = f b \<and> g b \<le> g r)
       \<or> (length (take n (firstOccurrences f seen xs)) = n
           \<and> (\<forall>r\<in>set (take n (firstOccurrences f seen xs)). g b \<le> (g r :: 'o :: linorder)))"
  using assms
proof (induction xs arbitrary: seen n)
  case Nil
  then show ?case by simp
next
  case (Cons x xs)
  have sorted: "sorted_wrt (\<lambda>a b. g b \<le> g a) xs" and above: "\<forall>y\<in>set xs. g y \<le> g x"
    using Cons.prems(1) by simp_all
  show ?case
  proof (cases "f x \<in> seen")
    case True
    with Cons.prems have "b \<in> set xs"
      by auto
    from Cons.IH [OF sorted this Cons.prems(3), of n] True show ?thesis
      by simp
  next
    case False
    show ?thesis
    proof (cases n)
      case 0
      then show ?thesis by simp
    next
      case (Suc m)
      show ?thesis
      proof (cases "f b = f x")
        case True
        have "g b \<le> g x"
          using Cons.prems(2) above by auto
        with True False Suc show ?thesis
          by simp
      next
        case neq: False
        with Cons.prems have b: "b \<in> set xs" "f b \<notin> insert (f x) seen"
          by auto
        have "g b \<le> g x"
          using b(1) above by auto
        with Cons.IH [OF sorted b, of m] False Suc show ?thesis
          by auto
      qed
    qed
  qed
qed

subsection \<open>The duplicate filter\<close>

text \<open>
  When every object has a title the filter keeps the first occurrences of the normalised
  titles; when one has none, it throws.
\<close>

lemma removeDuplicates_titled:
  assumes "\<forall>b\<in>set arr. scoredBook.title b \<noteq> None"
  shows "removeDuplicates arr
    = Inr (firstOccurrences (\<lambda>b. map_option normalizeTitle (scoredBook.title b)) {} arr)"
proof -
  define f :: "scoredBook \<Rightarrow> string option"
    where "f = (\<lambda>b. map_option normalizeTitle (scoredBook.title b))"
  have norm: "normalizedTitle b = Inr (the (f b))" "f b = Some (the (f b))" if "b \<in> set arr" for b
    using that assms by (auto simp: normalizedTitle_def f_def)
  have idx: "findIndex (\<lambda>b'. case normalizedTitle b' of
                              Inl e \<Rightarrow> Inl e
                            | Inr other \<Rightarrow> Inr (other = the (f b))) arr
      = Inr (firstIndex (\<lambda>b'. f b' = f b) arr)" if "b \<in> set arr" for b
  proof (rule findIndex_firstIndex, rule ballI)
    fix b'
    assume "b' \<in> set arr"
    from norm [OF this] norm(2) [OF that]
    obtain n n' where "f b = Some n" "f b' = Some n'" "normalizedTitle b' = Inr n'"
      by auto
    then show "(case normalizedTitle b' of Inl e \<Rightarrow> Inl e | Inr other \<Rightarrow> Inr (other = the (f b)))
        = Inr (f b' = f b)"
      by simp
  qed
  have "filterThrowing
          (\<lambda>(index, book).
             case normalizedTitle book of
               Inl e \<Rightarrow> Inl e
             | Inr normalized \<Rightarrow>
                 (case findIndex
                      (\<lambda>b. case normalizedTitle b of
                              Inl e \<Rightarrow> Inl e
                            | Inr other \<Rightarrow> Inr (other = normalized)) arr of
                    Inl e \<Rightarrow> Inl e
                  | Inr first \<Rightarrow> Inr (int index = first)))
          (enumerate 0 arr)
      = Inr (filter (\<lambda>(i, b). int i = firstIndex (\<lambda>b'. f b' = f b) arr) (enumerate 0 arr))"
  proof (rule filterThrowing_filter, rule ballI)
    fix x
    assume x: "x \<in> set (enumerate 0 arr)"
    obtain i b where ib: "x = (i, b)"
      by (cases x)
    with x have "b \<in> set arr"
      by (auto simp: in_set_enumerate_eq)
    from norm(1) [OF this] idx [OF this] ib
    show "(case x of
        (index, book) \<Rightarrow>
          (case normalizedTitle book of
             Inl e \<Rightarrow> Inl e
           | Inr normalized \<Rightarrow>
               (case findIndex
                    (\<lambda>b. case normalizedTitle b of
                            Inl e \<Rightarrow> Inl e
                          | Inr other \<Rightarrow> Inr (other = normalized)) arr of
                  Inl e \<Rightarrow> Inl e
                | Inr first \<Rightarrow> Inr (int index = first))))
      = Inr (case x of (i, b) \<Rightarrow> int i = firstIndex (\<lambda>b'. f b' = f b) arr)"
      by simp
  qed
  then show ?thesis
    using filter_firstIndex_firstOccurrences [of f "[]" arr]
    by (simp add: removeDuplicates_def f_def)
qed

lemma removeDuplicates_untitled:
  assumes "b \<in> set arr" "scoredBook.title b = None"
  shows "removeDuplicates arr = Inl TypeError"
proof -
  from assms(1) obtain i where "i < length arr" "arr ! i = b"
    by (auto simp: in_set_conv_nth)
  then have "(i, b) \<in> set (enumerate 0 arr)"
    by (simp add: in_set_enumerate_eq)
  moreover have "(case (i, b) of
        (index, book) \<Rightarrow>
          (case normalizedTitle book of
             Inl e \<Rightarrow> Inl e
           | Inr normalized \<Rightarrow>
               (case findIndex
                    (\<lambda>b. case normalizedTitle b of
                            Inl e \<Rightarrow> Inl e
                          | Inr other \<Rightarrow> Inr (other = normalized)) arr of
                  Inl e \<Rightarrow> Inl e
                | Inr first \<Rightarrow> Inr (int index = first)))) = Inl TypeError"
    using assms(2) by (simp add: normalizedTitle_def)
  ultimately show ?thesis
    unfolding removeDuplicates_def by (simp only: filterThrowing_throws sum.case)
qed

subsection \<open>The suggestion list\<close>

lemma scoreBook_fields [simp]:
  "scoredBook.titleScore (scoreBook q d) = titleMatchOf (doc.title d) q"
  "scoredBook.editionCount (scoreBook q d) = orZero (edition_count d)"
  "scoredBook.title (scoreBook q d) = doc.title d"
  by (simp_all add: scoreBook_def Let_def)

lemma set_sortByScore [simp]: "set (sortByScore books) = set books"
  by (simp add: sortByScore_def)

lemma sorted_sortByScore:
  "sorted_wrt (\<lambda>a b. scoredBook.score b \<le> scoredBook.score a) (sortByScore books)"
proof -
  have "sorted (map (\<lambda>b. - scoredBook.score b) (sort_key (\<lambda>b. - scoredBook.score b) books))"
    by (rule sorted_sort_key)
  then show ?thesis
    by (simp add: sortByScore_def sorted_map)
qed

lemma suggestionOf_fields:
  assumes "suggestionOf b = Some r"
  shows "scoredBook.title b = Some (title r)" "score r = scoredBook.score b"
  using assms by (auto simp: suggestionOf_def split: option.splits)

lemma map_filter_suggestionOf:
  assumes "\<forall>b\<in>set books. scoredBook.title b \<noteq> None"
  shows "map suggestionOf books = map Some (List.map_filter suggestionOf books)"
  using assms
  by (induction books) (auto simp: map_filter_simps suggestionOf_def split: option.splits)


text \<open>
  What \<open>rankBooks\<close> returns: it throws when a document that passes the filter has no
  title, and returns the first six of the first occurrences otherwise.
\<close>

lemma sortedMatches_iff:
  "b \<in> set (sortedMatches q docs) \<longleftrightarrow>
     (\<exists>d\<in>set docs. b = scoreBook q d
        \<and> (20 \<le> titleMatchOf (doc.title d) q \<or> 50 < orZero (edition_count d)))"
  by (auto simp: sortedMatches_def)

lemma rankBooks_throws:
  assumes "d \<in> set docs" "doc.title d = None" "50 < orZero (edition_count d)"
  shows "rankBooks q docs = Inl TypeError"
proof -
  have "scoreBook q d \<in> set (sortedMatches q docs)"
    using assms(1,3) by (auto simp: sortedMatches_iff)
  moreover have "scoredBook.title (scoreBook q d) = None"
    using assms(2) by simp
  ultimately have "removeDuplicates (sortedMatches q docs) = Inl TypeError"
    by (rule removeDuplicates_untitled)
  then show ?thesis
    by (simp add: rankBooks_def)
qed

lemma rankBooks_returns:
  assumes "\<forall>d\<in>set docs. 50 < orZero (edition_count d) \<longrightarrow> doc.title d \<noteq> None"
  shows "\<exists>results. rankBooks q docs = Inr results
    \<and> map suggestionOf (take 6 (firstOccurrences
          (\<lambda>b. map_option normalizeTitle (scoredBook.title b)) {} (sortedMatches q docs)))
      = map Some results"
proof -
  define kept where "kept = firstOccurrences
          (\<lambda>b. map_option normalizeTitle (scoredBook.title b)) {} (sortedMatches q docs)"
  have titled: "\<forall>b\<in>set (sortedMatches q docs). scoredBook.title b \<noteq> None"
  proof
    fix b
    assume "b \<in> set (sortedMatches q docs)"
    then obtain d where d: "d \<in> set docs" "b = scoreBook q d"
      "20 \<le> titleMatchOf (doc.title d) q \<or> 50 < orZero (edition_count d)"
      by (auto simp: sortedMatches_iff)
    with assms have "doc.title d \<noteq> None"
      by (auto simp: titleMatchOf_def split: option.splits)
    with d(2) show "scoredBook.title b \<noteq> None"
      by simp
  qed
  then have "removeDuplicates (sortedMatches q docs) = Inr kept"
    unfolding kept_def by (rule removeDuplicates_titled)
  then have res: "rankBooks q docs = Inr (List.map_filter suggestionOf (take 6 kept))"
    by (simp add: rankBooks_def)
  have "set (take 6 kept) \<subseteq> set (sortedMatches q docs)"
    using set_take_subset [of 6 kept] firstOccurrences_subset [of _ "{}" "sortedMatches q docs"]
    by (auto simp: kept_def)
  with titled have "\<forall>b\<in>set (take 6 kept). scoredBook.title b \<noteq> None"
    by blast
  then have "map suggestionOf (take 6 kept)
      = map Some (List.map_filter suggestionOf (take 6 kept))"
    by (rule map_filter_suggestionOf)
  with res show ?thesis
    unfolding kept_def by blast
qed

text \<open>The properties of the list returned.\<close>

lemma rankBooks_Inr:
  assumes "rankBooks q docs = Inr results"
  shows "length results \<le> 6"
    and "sorted_wrt (\<lambda>a b. score b \<le> score a) results"
    and "distinct (map (\<lambda>r. normalizeTitle (title r)) results)"
    and "\<forall>r\<in>set results. \<exists>d\<in>set docs. suggestionOf (scoreBook q d) = Some r
           \<and> (20 \<le> titleMatchOf (doc.title d) q \<or> 50 < orZero (edition_count d))"
    and "\<forall>d\<in>set docs.
           20 \<le> titleMatchOf (doc.title d) q \<or> 50 < orZero (edition_count d) \<longrightarrow>
           (\<exists>r\<in>set results.
               map_option normalizeTitle (doc.title d) = Some (normalizeTitle (title r))
               \<and> scoredBook.score (scoreBook q d) \<le> score r)
           \<or> (length results = 6
               \<and> (\<forall>r\<in>set results. scoredBook.score (scoreBook q d) \<le> score r))"
proof -
  define f :: "scoredBook \<Rightarrow> string option"
    where "f = (\<lambda>b. map_option normalizeTitle (scoredBook.title b))"
  define kept where "kept = take 6 (firstOccurrences f {} (sortedMatches q docs))"
  have titled: "\<forall>d\<in>set docs. 50 < orZero (edition_count d) \<longrightarrow> doc.title d \<noteq> None"
  proof (rule ccontr)
    assume "\<not> (\<forall>d\<in>set docs. 50 < orZero (edition_count d) \<longrightarrow> doc.title d \<noteq> None)"
    then obtain d where "d \<in> set docs" "doc.title d = None" "50 < orZero (edition_count d)"
      by blast
    then have "rankBooks q docs = Inl TypeError"
      by (rule rankBooks_throws)
    with assms show False
      by simp
  qed
  from rankBooks_returns [OF this, of q] assms
  have kept: "map suggestionOf kept = map Some results"
    by (simp add: kept_def f_def)
  then have len: "length kept = length results"
    by (metis length_map)
  have nth: "suggestionOf (kept ! i) = Some (results ! i)" if "i < length results" for i
    using that len kept by (metis nth_map)
  have ord: "sorted_wrt (\<lambda>a b. scoredBook.score b \<le> scoredBook.score a) (sortedMatches q docs)"
    unfolding sortedMatches_def by (rule sorted_sortByScore)
  have scores: "map score results = map scoredBook.score kept"
    using len nth by (auto simp: list_eq_iff_nth_eq suggestionOf_fields)
  have keys: "map Some (map (\<lambda>r. normalizeTitle (title r)) results) = map f kept"
    using len nth by (auto simp: list_eq_iff_nth_eq f_def suggestionOf_fields)
  show "length results \<le> 6"
    using len by (simp add: kept_def)
  have "sorted_wrt (\<lambda>a b. scoredBook.score b \<le> scoredBook.score a) kept"
    unfolding kept_def by (intro sorted_wrt_take firstOccurrences_sorted ord)
  then have "sorted_wrt (\<lambda>a b. b \<le> a) (map scoredBook.score kept)"
    by (simp add: sorted_wrt_map)
  then have "sorted_wrt (\<lambda>a b. b \<le> a) (map score results)"
    by (simp only: scores)
  then show "sorted_wrt (\<lambda>a b. score b \<le> score a) results"
    by (simp add: sorted_wrt_map)
  have "distinct (take 6 (map f (firstOccurrences f {} (sortedMatches q docs))))"
    by (intro distinct_take firstOccurrences_distinct)
  then have "distinct (map f kept)"
    by (simp add: kept_def take_map)
  then have "distinct (map Some (map (\<lambda>r. normalizeTitle (title r)) results))"
    by (simp only: keys)
  then show "distinct (map (\<lambda>r. normalizeTitle (title r)) results)"
    by (simp only: distinct_map) 
  have sub: "set kept \<subseteq> set (sortedMatches q docs)"
    using set_take_subset [of 6 "firstOccurrences f {} (sortedMatches q docs)"]
      firstOccurrences_subset [of f "{}" "sortedMatches q docs"]
    by (auto simp: kept_def)
  have from_kept: "\<exists>b\<in>set kept. suggestionOf b = Some r" if "r \<in> set results" for r
  proof -
    from that obtain i where "i < length results" "results ! i = r"
      by (auto simp: in_set_conv_nth)
    with nth [of i] len have "kept ! i \<in> set kept" "suggestionOf (kept ! i) = Some r"
      by simp_all
    then show ?thesis
      by blast
  qed
  have to_kept: "\<exists>r\<in>set results. suggestionOf b = Some r" if "b \<in> set kept" for b
  proof -
    from that obtain i where "i < length kept" "kept ! i = b"
      by (auto simp: in_set_conv_nth)
    with nth [of i] len have "results ! i \<in> set results" "suggestionOf b = Some (results ! i)"
      by simp_all
    then show ?thesis
      by blast
  qed
  show "\<forall>r\<in>set results. \<exists>d\<in>set docs. suggestionOf (scoreBook q d) = Some r
           \<and> (20 \<le> titleMatchOf (doc.title d) q \<or> 50 < orZero (edition_count d))"
  proof
    fix r
    assume "r \<in> set results"
    from from_kept [OF this] obtain b where b: "b \<in> set kept" "suggestionOf b = Some r"
      by blast
    with sub have "b \<in> set (sortedMatches q docs)"
      by blast
    with b(2) show "\<exists>d\<in>set docs. suggestionOf (scoreBook q d) = Some r
           \<and> (20 \<le> titleMatchOf (doc.title d) q \<or> 50 < orZero (edition_count d))"
      by (auto simp: sortedMatches_iff)
  qed
  show "\<forall>d\<in>set docs.
           20 \<le> titleMatchOf (doc.title d) q \<or> 50 < orZero (edition_count d) \<longrightarrow>
           (\<exists>r\<in>set results.
               map_option normalizeTitle (doc.title d) = Some (normalizeTitle (title r))
               \<and> scoredBook.score (scoreBook q d) \<le> score r)
           \<or> (length results = 6
               \<and> (\<forall>r\<in>set results. scoredBook.score (scoreBook q d) \<le> score r))"
  proof (intro ballI impI)
    fix d
    assume d: "d \<in> set docs"
      and pass: "20 \<le> titleMatchOf (doc.title d) q \<or> 50 < orZero (edition_count d)"
    then have "scoreBook q d \<in> set (sortedMatches q docs)"
      by (auto simp: sortedMatches_iff)
    from firstOccurrences_top [OF ord this, of f "{}" 6]
    consider (shown) b where "b \<in> set kept" "f b = f (scoreBook q d)"
        "scoredBook.score (scoreBook q d) \<le> scoredBook.score b"
      | (full) "length kept = 6" "\<forall>b\<in>set kept. scoredBook.score (scoreBook q d) \<le> scoredBook.score b"
      by (auto simp: kept_def)
    then show "(\<exists>r\<in>set results.
               map_option normalizeTitle (doc.title d) = Some (normalizeTitle (title r))
               \<and> scoredBook.score (scoreBook q d) \<le> score r)
           \<or> (length results = 6
               \<and> (\<forall>r\<in>set results. scoredBook.score (scoreBook q d) \<le> score r))"
    proof cases
      case shown
      from to_kept [OF shown(1)] obtain r where r: "r \<in> set results" "suggestionOf b = Some r"
        by blast
      with shown(2,3) have "map_option normalizeTitle (doc.title d) = Some (normalizeTitle (title r))"
        "scoredBook.score (scoreBook q d) \<le> score r"
        by (simp_all add: f_def suggestionOf_fields)
      with r(1) show ?thesis
        by blast
    next
      case full
      have "\<forall>r\<in>set results. scoredBook.score (scoreBook q d) \<le> score r"
      proof
        fix r
        assume "r \<in> set results"
        from from_kept [OF this] full(2) show "scoredBook.score (scoreBook q d) \<le> score r"
          by (auto simp: suggestionOf_fields)
      qed
      with full(1) len show ?thesis
        by simp
    qed
  qed
qed

text \<open>
  The normal form of a title in the words of the specification: lower-cased, with the
  non-word characters removed. The code keeps white space, which \<open>normalizeTitle\<close>
  follows.
\<close>

definition normalizeTitle_nonword :: "string \<Rightarrow> string" where
  "normalizeTitle_nonword t = filter isWordChar (toLowerCase t)"

text \<open>
  Three documents of a response to the query \<open>super\<close>, the last one without a title, and
  the suggestions made of the first two.
\<close>

definition superManDoc :: doc where
  "superManDoc =
     \<lparr> doc.key = ''/works/OL1W'', doc.title = Some ''Super Man'',
       author_name = Some [''A. Author'', ''B. Writer''], first_publish_year = Some 1999,
       doc.cover_i = None, doc.isbn = None, edition_count = None,
       ratings_average = None \<rparr>"

definition supermanDoc :: doc where
  "supermanDoc =
     \<lparr> doc.key = ''/works/OL2W'', doc.title = Some ''Superman'',
       author_name = None, first_publish_year = None,
       doc.cover_i = Some 12, doc.isbn = None, edition_count = Some 200,
       ratings_average = Some 4 \<rparr>"

definition untitledDoc :: doc where
  "untitledDoc =
     \<lparr> doc.key = ''/works/OL3W'', doc.title = None,
       author_name = None, first_publish_year = None,
       doc.cover_i = None, doc.isbn = None, edition_count = Some 200,
       ratings_average = None \<rparr>"

definition superManBook :: suggestion where
  "superManBook =
     \<lparr> key = ''/works/OL1W'', title = ''Super Man'', authors = ''A. Author, B. Writer'',
       year = Some 1999, cover_i = None, isbn = None, editionCount = 0, score = 100,
       titleScore = 95 \<rparr>"

definition supermanBook :: suggestion where
  "supermanBook =
     \<lparr> key = ''/works/OL2W'', title = ''Superman'', authors = ''Unknown author'',
       year = None, cover_i = Some 12, isbn = None, editionCount = 200, score = 128,
       titleScore = 95 \<rparr>"

lemma example_titles:
  "doc.title superManDoc = Some ''Super Man''" "doc.title supermanDoc = Some ''Superman''"
  "doc.title untitledDoc = None" "edition_count untitledDoc = Some 200"
  by (simp_all add: superManDoc_def supermanDoc_def untitledDoc_def)

lemma example_titleScores:
  "calculateTitleMatch ''Super Man'' ''super'' = 95"
  "calculateTitleMatch ''Superman'' ''super'' = 95"
  "calculateTitleMatch ''Super Man'' ''Super'' = 95"
  "calculateTitleMatch ''Superman'' ''Super'' = 95"
  by code_simp+

lemma example_normalizeTitle:
  "normalizeTitle ''Super Man'' = ''super man''"
  "normalizeTitle ''Superman'' = ''superman''"
  by code_simp+

lemma example_scoreBook:
  assumes "q = ''super'' \<or> q = ''Super''"
  shows "scoreBook q superManDoc =
     \<lparr> scoredBook.key = ''/works/OL1W'', scoredBook.title = Some ''Super Man'',
       scoredBook.authors = ''A. Author, B. Writer'', scoredBook.year = Some 1999,
       scoredBook.cover_i = None, scoredBook.isbn = None, scoredBook.editionCount = 0,
       scoredBook.score = 100, scoredBook.titleScore = 95 \<rparr>"
    and "scoreBook q supermanDoc =
     \<lparr> scoredBook.key = ''/works/OL2W'', scoredBook.title = Some ''Superman'',
       scoredBook.authors = ''Unknown author'', scoredBook.year = None,
       scoredBook.cover_i = Some 12, scoredBook.isbn = None, scoredBook.editionCount = 200,
       scoredBook.score = 128, scoredBook.titleScore = 95 \<rparr>"
  using assms
  by (auto simp add: scoreBook_def superManDoc_def supermanDoc_def titleMatchOf_def
      example_titleScores js_add_def js_mul_def js_div_def orZero_def orNull_def truthyNumber_def)

lemma example_rankBooks:
  assumes "q = ''super'' \<or> q = ''Super''"
  shows "rankBooks q [superManDoc, supermanDoc] = Inr [supermanBook, superManBook]"
  by (simp add: rankBooks_def sortedMatches_def sortByScore_def removeDuplicates_def
      normalizedTitle_def suggestionOf_def map_filter_simps
      example_scoreBook [OF assms] example_normalizeTitle supermanBook_def superManBook_def)

text \<open>
  Claim C2, as the specification states it, fails: with the query \<open>super\<close> the titles
  \<open>Superman\<close> and \<open>Super Man\<close> are both suggested, and they are the same title once
  lower-cased and stripped of their non-word characters.
\<close>

theorem rankBooks_nonword_counterexample:
  "\<exists>results. rankBooks ''super'' [superManDoc, supermanDoc] = Inr results
     \<and> map title results = [''Superman'', ''Super Man'']
     \<and> \<not> distinct (map (\<lambda>b. normalizeTitle_nonword (title b)) results)"
proof -
  have "normalizeTitle_nonword ''Super Man'' = normalizeTitle_nonword ''Superman''"
    by code_simp
  then show ?thesis
    by (simp add: example_rankBooks supermanBook_def superManBook_def)
qed

section \<open>Parsing the podcast script\<close>

text \<open>An entry of the dialogue list of \<open>parseScript\<close>: \<open>{ speaker, text }\<close>.\<close>

record dialogue =
  speaker :: string
  spoken :: string

definition canonicalize :: "char \<Rightarrow> char" where
  \<comment> \<open>the form in which the \<open>i\<close> flag of a regular expression compares two characters:
      the upper-case letter of a letter. The letters of the patterns below are ASCII, and
      no other character below 256 has the canonical form of an ASCII letter.\<close>
  "canonicalize c =
     (case map_of (zip lowerCaseLetters upperCaseLetters) c of None \<Rightarrow> c | Some u \<Rightarrow> u)"

text \<open>
  The literal part of \<open>/^Naval:\s*(.+)/i\<close>: the characters of the label at the start of
  the line, compared in canonical form. The result is the rest of the line.
\<close>

fun matchPrefix :: "string \<Rightarrow> string \<Rightarrow> string option" where
  "matchPrefix [] line = Some line"
| "matchPrefix (p # ps) [] = None"
| "matchPrefix (p # ps) (c # cs) =
     (if canonicalize c = canonicalize p then matchPrefix ps cs else None)"

text \<open>
  \<open>\s*(.+)\<close> on the rest of the line. The star takes \<open>k\<close> white space characters, as many
  as there are at first; the group then takes the characters up to the next line
  terminator and needs one at least, and where there is none the star gives one
  character back.
\<close>

fun captureAfterSpaces :: "nat \<Rightarrow> string \<Rightarrow> string option" where
  "captureAfterSpaces 0 rest =
     (let captured = takeWhile (\<lambda>c. \<not> isLineTerminator c) rest
      in if captured = [] then None else Some captured)"
| "captureAfterSpaces (Suc k) rest =
     (let captured = takeWhile (\<lambda>c. \<not> isLineTerminator c) (drop (Suc k) rest)
      in if captured = [] then captureAfterSpaces k rest else Some captured)"

definition matchSpeaker :: "string \<Rightarrow> string \<Rightarrow> string option" where
  \<comment> \<open>\<open>line.match(/^Naval:\s*(.+)/i)\<close>, for the label \<open>Naval:\<close>: the first group of the
      match, or \<open>None\<close> for \<open>null\<close>\<close>
  "matchSpeaker label line =
     (case matchPrefix label line of
        None \<Rightarrow> None
      | Some rest \<Rightarrow> captureAfterSpaces (length (takeWhile isWhiteSpace rest)) rest)"

definition parseLine :: "dialogue list \<Rightarrow> string \<Rightarrow> dialogue list" where
  \<comment> \<open>the body of the loop over the lines\<close>
  "parseLine dialogues line =
     (case matchSpeaker ''Naval:'' line of
        Some captured \<Rightarrow> dialogues @ [\<lparr> speaker = ''Naval'', spoken = captured \<rparr>]
      | None \<Rightarrow>
          (case matchSpeaker ''Chris:'' line of
             Some captured \<Rightarrow> dialogues @ [\<lparr> speaker = ''Chris'', spoken = captured \<rparr>]
           | None \<Rightarrow>
               if trim line \<noteq> [] \<and> \<not> startsWith line ''=''
               then
                 if 0 < length dialogues
                 then dialogues[length dialogues - 1 :=
                        (dialogues ! (length dialogues - 1))
                          \<lparr> spoken := spoken (dialogues ! (length dialogues - 1))
                                       @ '' '' @ trim line \<rparr>]
                 else dialogues
               else dialogues))"

definition parseScript :: "string option \<Rightarrow> dialogue list" where
  \<comment> \<open>\<open>None\<close> is a script that is \<open>null\<close> or \<open>undefined\<close>\<close>
  "parseScript script =
     (case script of
        None \<Rightarrow> []
      | Some s \<Rightarrow>
          if s = [] then []
          else foldl parseLine [] (filter (\<lambda>line. trim line \<noteq> []) (splitChar CHR 0x0A s)))"

subsection \<open>What the two patterns match\<close>

lemma isLineTerminator_isWhiteSpace: "isLineTerminator c \<Longrightarrow> isWhiteSpace c"
  by (auto simp: isLineTerminator_def isWhiteSpace_def)

lemma matchPrefix_Some_iff:
  "matchPrefix label line = Some rest \<longleftrightarrow>
     (\<exists>l. line = l @ rest \<and> length l = length label
          \<and> map canonicalize l = map canonicalize label)"
proof (induction label line rule: matchPrefix.induct)
  case (1 line)
  show ?case by auto
next
  case (2 p ps)
  show ?case by auto
next
  case (3 p ps c cs)
  show ?case
  proof (cases "canonicalize c = canonicalize p")
    case True
    have "(\<exists>l. cs = l @ rest \<and> length l = length ps \<and> map canonicalize l = map canonicalize ps)
      \<longleftrightarrow> (\<exists>l. c # cs = l @ rest \<and> length l = length (p # ps)
            \<and> map canonicalize l = map canonicalize (p # ps))"
    proof
      assume "\<exists>l. cs = l @ rest \<and> length l = length ps \<and> map canonicalize l = map canonicalize ps"
      then obtain l where "cs = l @ rest" "length l = length ps"
        "map canonicalize l = map canonicalize ps"
        by blast
      with True have "c # cs = (c # l) @ rest \<and> length (c # l) = length (p # ps)
            \<and> map canonicalize (c # l) = map canonicalize (p # ps)"
        by simp
      then show "\<exists>l. c # cs = l @ rest \<and> length l = length (p # ps)
            \<and> map canonicalize l = map canonicalize (p # ps)"
        by blast
    next
      assume "\<exists>l. c # cs = l @ rest \<and> length l = length (p # ps)
            \<and> map canonicalize l = map canonicalize (p # ps)"
      then obtain l where l: "c # cs = l @ rest" "length l = length (p # ps)"
        "map canonicalize l = map canonicalize (p # ps)"
        by blast
      then obtain l' where "l = c # l'"
        by (cases l) auto
      with l show "\<exists>l. cs = l @ rest \<and> length l = length ps
            \<and> map canonicalize l = map canonicalize ps"
        by auto
    qed
    with True "3.IH" show ?thesis
      by simp
  next
    case False
    have "\<not> (\<exists>l. c # cs = l @ rest \<and> length l = length (p # ps)
            \<and> map canonicalize l = map canonicalize (p # ps))"
    proof
      assume "\<exists>l. c # cs = l @ rest \<and> length l = length (p # ps)
            \<and> map canonicalize l = map canonicalize (p # ps)"
      then obtain l where l: "c # cs = l @ rest" "length l = length (p # ps)"
        "map canonicalize l = map canonicalize (p # ps)"
        by blast
      then obtain l' where "l = c # l'"
        by (cases l) auto
      with l False show False
        by auto
    qed
    with False show ?thesis
      by simp
  qed
qed

lemma captureAfterSpaces_None_iff:
  "captureAfterSpaces k rest = None \<longleftrightarrow>
     (\<forall>j\<le>k. takeWhile (\<lambda>c. \<not> isLineTerminator c) (drop j rest) = [])"
proof (induction k)
  case 0
  show ?case by (simp add: Let_def)
next
  case (Suc k)
  show ?case
    using Suc.IH by (auto simp: Let_def le_Suc_eq)
qed

lemma captureAfterSpaces_Some:
  "captureAfterSpaces k rest = Some t \<Longrightarrow>
     \<exists>j\<le>k. t = takeWhile (\<lambda>c. \<not> isLineTerminator c) (drop j rest) \<and> t \<noteq> []"
proof (induction k)
  case 0
  then show ?case by (auto simp: Let_def split: if_splits)
next
  case (Suc k)
  show ?case
  proof (cases "takeWhile (\<lambda>c. \<not> isLineTerminator c) (drop (Suc k) rest) = []")
    case True
    with Suc.prems have "captureAfterSpaces k rest = Some t"
      by (simp add: Let_def)
    from Suc.IH [OF this] show ?thesis
      by (auto simp: le_Suc_eq)
  next
    case False
    with Suc.prems show ?thesis
      by (auto simp: Let_def)
  qed
qed

lemma matchSpeaker_None_iff:
  "matchSpeaker label line = None \<longleftrightarrow>
     (case matchPrefix label line of
        None \<Rightarrow> True
      | Some rest \<Rightarrow> \<forall>c\<in>set rest. isLineTerminator c)"
proof (cases "matchPrefix label line")
  case None
  then show ?thesis by (simp add: matchSpeaker_def)
next
  case (Some rest)
  define k where "k = length (takeWhile isWhiteSpace rest)"
  have "(\<forall>j\<le>k. takeWhile (\<lambda>c. \<not> isLineTerminator c) (drop j rest) = [])
      \<longleftrightarrow> (\<forall>c\<in>set rest. isLineTerminator c)"
  proof
    assume all: "\<forall>j\<le>k. takeWhile (\<lambda>c. \<not> isLineTerminator c) (drop j rest) = []"
    have at: "isLineTerminator (rest ! j)" if "j \<le> k" "j < length rest" for j
    proof -
      from all that(1) have "takeWhile (\<lambda>c. \<not> isLineTerminator c) (drop j rest) = []"
        by blast
      moreover have "drop j rest = rest ! j # drop (Suc j) rest"
        using that(2) by (simp add: Cons_nth_drop_Suc)
      ultimately show ?thesis
        by (simp split: if_splits)
    qed
    have "k = length rest"
    proof (rule ccontr)
      assume "k \<noteq> length rest"
      moreover have "k \<le> length rest"
        unfolding k_def by (rule length_takeWhile_le)
      ultimately have less: "k < length rest"
        by simp
      then have "\<not> isWhiteSpace (rest ! k)"
        unfolding k_def by (rule nth_length_takeWhile)
      moreover have "isWhiteSpace (rest ! k)"
        using at [of k] less by (simp add: isLineTerminator_isWhiteSpace)
      ultimately show False
        by blast
    qed
    with at show "\<forall>c\<in>set rest. isLineTerminator c"
      by (auto simp: in_set_conv_nth)
  next
    assume all: "\<forall>c\<in>set rest. isLineTerminator c"
    show "\<forall>j\<le>k. takeWhile (\<lambda>c. \<not> isLineTerminator c) (drop j rest) = []"
    proof (intro allI impI)
      fix j
      show "takeWhile (\<lambda>c. \<not> isLineTerminator c) (drop j rest) = []"
      proof (cases "drop j rest")
        case Nil
        then show ?thesis by simp
      next
        case (Cons c cs)
        then have "c \<in> set rest"
          using set_drop_subset [of j rest] by (metis list.set_intros(1) subsetD)
        with all Cons show ?thesis
          by simp
      qed
    qed
  qed
  with Some show ?thesis
    by (simp add: matchSpeaker_def captureAfterSpaces_None_iff k_def)
qed

lemma matchSpeaker_Some:
  assumes "matchSpeaker label line = Some t"
  shows "\<exists>l w r. line = l @ w @ t @ r \<and> length l = length label
           \<and> map canonicalize l = map canonicalize label
           \<and> (\<forall>c\<in>set w. isWhiteSpace c)
           \<and> t \<noteq> [] \<and> (\<forall>c\<in>set t. \<not> isLineTerminator c)
           \<and> (r = [] \<or> isLineTerminator (hd r))"
proof -
  from assms obtain rest where rest: "matchPrefix label line = Some rest"
    and cap: "captureAfterSpaces (length (takeWhile isWhiteSpace rest)) rest = Some t"
    by (auto simp: matchSpeaker_def split: option.splits)
  from rest obtain l where l: "line = l @ rest" "length l = length label"
    "map canonicalize l = map canonicalize label"
    by (auto simp: matchPrefix_Some_iff)
  from captureAfterSpaces_Some [OF cap] obtain j
    where j: "j \<le> length (takeWhile isWhiteSpace rest)"
      and t: "t = takeWhile (\<lambda>c. \<not> isLineTerminator c) (drop j rest)" "t \<noteq> []"
    by blast
  define w where "w = take j rest"
  define r where "r = dropWhile (\<lambda>c. \<not> isLineTerminator c) (drop j rest)"
  have "rest = w @ t @ r"
    by (simp add: w_def r_def t(1))
  moreover have "\<forall>c\<in>set w. isWhiteSpace c"
  proof -
    define k where "k = length (takeWhile isWhiteSpace rest)"
    have tk: "takeWhile isWhiteSpace rest = take k rest"
      unfolding k_def by (rule takeWhile_eq_take)
    have "w = take j (take k rest)"
      using j by (simp add: w_def k_def min_def)
    then have "w = take j (takeWhile isWhiteSpace rest)"
      by (simp only: tk)
    then have "set w \<subseteq> set (takeWhile isWhiteSpace rest)"
      by (simp add: set_take_subset)
    then show ?thesis
      by (auto dest: set_takeWhileD)
  qed
  moreover have "\<forall>c\<in>set t. \<not> isLineTerminator c"
    unfolding t(1) by (auto dest: set_takeWhileD)
  moreover have "r = [] \<or> isLineTerminator (hd r)"
    unfolding r_def using hd_dropWhile [of "\<lambda>c. \<not> isLineTerminator c" "drop j rest"] by auto
  ultimately show ?thesis
    using l t(2) by auto
qed

lemma canonical_labels: "canonicalize CHR ''C'' \<noteq> canonicalize CHR ''N''"
  by code_simp

lemma matchSpeaker_exclusive:
  assumes "matchSpeaker ''Chris:'' line = Some t"
  shows "matchSpeaker ''Naval:'' line = None"
proof -
  from assms obtain rest where "matchPrefix ''Chris:'' line = Some rest"
    by (auto simp: matchSpeaker_def split: option.splits)
  then have "matchPrefix ''Naval:'' line = None"
    using canonical_labels by (cases line) (auto split: if_splits)
  then show ?thesis
    by (simp add: matchSpeaker_def)
qed

subsection \<open>The dialogue list\<close>

definition speakersKnown :: "dialogue list \<Rightarrow> bool" where
  "speakersKnown dialogues \<longleftrightarrow>
     (\<forall>d\<in>set dialogues. speaker d = ''Naval'' \<or> speaker d = ''Chris'')"

lemma parseLine_speakersKnown:
  assumes "speakersKnown dialogues"
  shows "speakersKnown (parseLine dialogues line)"
proof -
  have upd: "speakersKnown (dialogues[length dialogues - 1 :=
      (dialogues ! (length dialogues - 1))\<lparr> spoken := s \<rparr>])" if "0 < length dialogues" for s
  proof -
    have "dialogues ! (length dialogues - 1) \<in> set dialogues"
      using that by simp
    with assms have "speaker (dialogues ! (length dialogues - 1)) = ''Naval''
        \<or> speaker (dialogues ! (length dialogues - 1)) = ''Chris''"
      by (simp add: speakersKnown_def)
    with assms show ?thesis
      unfolding speakersKnown_def
      using set_update_subset_insert [of dialogues "length dialogues - 1"]
      by (fastforce simp: subset_iff)
  qed
  show ?thesis
    using assms upd
    by (auto simp: parseLine_def speakersKnown_def split: option.splits)
qed

lemma foldl_parseLine_speakersKnown:
  "speakersKnown dialogues \<Longrightarrow> speakersKnown (foldl parseLine dialogues lines)"
  by (induction lines arbitrary: dialogues) (simp_all add: parseLine_speakersKnown)

lemma parseScript_speakersKnown: "speakersKnown (parseScript script)"
proof -
  have "speakersKnown []"
    by (simp add: speakersKnown_def)
  then show ?thesis
    by (auto simp: parseScript_def foldl_parseLine_speakersKnown split: option.splits)
qed

lemma parseLine_append_last:
  assumes "matchSpeaker ''Naval:'' line = None" "matchSpeaker ''Chris:'' line = None"
    "trim line \<noteq> []" "\<not> startsWith line ''=''"
  shows "parseLine (pre @ [e]) line = pre @ [e\<lparr> spoken := spoken e @ '' '' @ trim line \<rparr>]"
  using assms by (simp add: parseLine_def nth_append)

subsection \<open>The text of an entry\<close>

text \<open>
  The text of the entry that a line starts, said without the pattern. The line begins
  with the label, in upper or lower case. If a character that is not white space comes
  after the label, the text runs from the first such character up to the next line
  terminator, or to the end of the line. If only white space comes after the label, the
  text is a single character: the last one that is not a line terminator. There is no
  entry when nothing, or nothing but line terminators, comes after the label.
\<close>

definition entryText :: "string \<Rightarrow> string \<Rightarrow> string option" where
  "entryText label line =
     (if length label \<le> length line
         \<and> map canonicalize (take (length label) line) = map canonicalize label
      then
        let rest = drop (length label) line;
            words = dropWhile isWhiteSpace rest
        in if words \<noteq> [] then Some (takeWhile (\<lambda>c. \<not> isLineTerminator c) words)
           else (case filter (\<lambda>c. \<not> isLineTerminator c) rest of
                   [] \<Rightarrow> None
                 | c # cs \<Rightarrow> Some [last (c # cs)])
      else None)"

lemma matchPrefix_eq:
  "matchPrefix label line =
     (if length label \<le> length line
         \<and> map canonicalize (take (length label) line) = map canonicalize label
      then Some (drop (length label) line) else None)"
  by (induction label line rule: matchPrefix.induct) auto

lemma captureAfterSpaces_at:
  assumes "j \<le> k" "takeWhile (\<lambda>c. \<not> isLineTerminator c) (drop j rest) = t" "t \<noteq> []"
    "\<forall>i. j < i \<and> i \<le> k \<longrightarrow> takeWhile (\<lambda>c. \<not> isLineTerminator c) (drop i rest) = []"
  shows "captureAfterSpaces k rest = Some t"
  using assms
proof (induction k)
  case 0
  then show ?case by (simp add: Let_def)
next
  case (Suc k)
  show ?case
  proof (cases "j = Suc k")
    case True
    with Suc.prems show ?thesis by (simp add: Let_def)
  next
    case False
    with Suc.prems have "j \<le> k" by simp
    moreover have "takeWhile (\<lambda>c. \<not> isLineTerminator c) (drop (Suc k) rest) = []"
      using Suc.prems(4) \<open>j \<le> k\<close> by simp
    ultimately show ?thesis
      using Suc.IH Suc.prems by (simp add: Let_def)
  qed
qed

text \<open>The pattern captures this text, and matches where there is one.\<close>

lemma matchSpeaker_entryText: "matchSpeaker label line = entryText label line"
proof (cases "matchPrefix label line")
  case None
  then show ?thesis
    by (auto simp add: matchSpeaker_def entryText_def matchPrefix_eq split: if_splits)
next
  case (Some rest)
  then have pre: "length label \<le> length line
         \<and> map canonicalize (take (length label) line) = map canonicalize label"
    and rest: "rest = drop (length label) line"
    by (simp_all add: matchPrefix_eq split: if_splits)
  define k where "k = length (takeWhile isWhiteSpace rest)"
  have dk: "dropWhile isWhiteSpace rest = drop k rest"
    unfolding k_def by (rule dropWhile_eq_drop)
  show ?thesis
  proof (cases "dropWhile isWhiteSpace rest = []")
    case False
    then have "\<not> isWhiteSpace (hd (dropWhile isWhiteSpace rest))"
      by (rule hd_dropWhile)
    then have "\<not> isLineTerminator (hd (dropWhile isWhiteSpace rest))"
      using isLineTerminator_isWhiteSpace by blast
    with False have "takeWhile (\<lambda>c. \<not> isLineTerminator c) (drop k rest) \<noteq> []"
      unfolding dk [symmetric] by (cases "dropWhile isWhiteSpace rest") auto
    then have "captureAfterSpaces k rest
        = Some (takeWhile (\<lambda>c. \<not> isLineTerminator c) (drop k rest))"
      by (intro captureAfterSpaces_at [of k]) simp_all
    moreover have "\<exists>x\<in>set rest. \<not> isWhiteSpace x"
      using False by simp
    ultimately show ?thesis
      using Some False pre
      by (simp add: matchSpeaker_def entryText_def k_def [symmetric] rest [symmetric] dk Let_def)
  next
    case True
    then have white: "\<forall>c\<in>set rest. isWhiteSpace c"
      by simp
    then have k: "k = length rest"
      by (simp add: k_def takeWhile_eq_all_conv [THEN iffD2])
    show ?thesis
    proof (cases "filter (\<lambda>c. \<not> isLineTerminator c) rest")
      case Nil
      then have "\<forall>c\<in>set rest. isLineTerminator c"
        by (simp add: filter_empty_conv)
      then have "matchSpeaker label line = None"
        using Some by (simp add: matchSpeaker_None_iff)
      with Nil True pre show ?thesis
        by (simp add: entryText_def rest [symmetric] Let_def)
    next
      case (Cons c cs)
      then have "\<exists>x\<in>set rest. \<not> isLineTerminator x"
        by (metis filter_empty_conv list.distinct(1))
      then obtain xs x ys where split: "rest = xs @ x # ys" "\<not> isLineTerminator x"
        "\<forall>y\<in>set ys. isLineTerminator y"
        using split_list_last_prop [of rest "\<lambda>x. \<not> isLineTerminator x"] by blast
      have "filter (\<lambda>c. \<not> isLineTerminator c) ys = []"
        using split(3) by (simp add: filter_empty_conv)
      then have "c # cs = filter (\<lambda>c. \<not> isLineTerminator c) xs @ [x]"
        using Cons split(1,2) by simp
      then have lst: "last (c # cs) = x"
        by (simp only: last_snoc)
      have tail: "takeWhile (\<lambda>c. \<not> isLineTerminator c) (drop i ys) = []" for i
      proof (cases "drop i ys")
        case Nil
        then show ?thesis by simp
      next
        case (Cons y zs)
        then have "y \<in> set ys"
          using set_drop_subset [of i ys] by (metis list.set_intros(1) subsetD)
        with split(3) Cons show ?thesis
          by simp
      qed
      have at: "takeWhile (\<lambda>c. \<not> isLineTerminator c) (drop (length xs) rest) = [x]"
        using split(1,2) tail [of 0] by simp
      have above: "\<forall>i. length xs < i \<and> i \<le> k \<longrightarrow>
          takeWhile (\<lambda>c. \<not> isLineTerminator c) (drop i rest) = []"
      proof (intro allI impI)
        fix i
        assume "length xs < i \<and> i \<le> k"
        then have "drop i rest = drop (i - length xs - 1) ys"
          using split(1) by (simp add: drop_Cons')
        then show "takeWhile (\<lambda>c. \<not> isLineTerminator c) (drop i rest) = []"
          using tail by simp
      qed
      have "length xs \<le> k"
        using k split(1) by simp
      then have "captureAfterSpaces k rest = Some [x]"
        using at above by (intro captureAfterSpaces_at [of "length xs"]) simp_all
      with Some Cons True pre lst show ?thesis
        by (simp add: matchSpeaker_def entryText_def k_def [symmetric] rest [symmetric] Let_def)
    qed
  qed
qed

text \<open>
  A line matching a label, in the words of the specification: the line begins with the
  label, in upper or lower case.
\<close>

definition hasLabel :: "string \<Rightarrow> string \<Rightarrow> bool" where
  "hasLabel label line \<longleftrightarrow>
     length label \<le> length line
     \<and> map canonicalize (take (length label) line) = map canonicalize label"

text \<open>
  Claim C10, as the specification states it, fails: a line that is the label \<open>Naval:\<close>
  and nothing more starts no entry. The pattern asks for a character after the label, so
  the line counts as any other line, and is appended to the entry before it.
\<close>

theorem parseScript_label_counterexample:
  "hasLabel ''Naval:'' ''Naval:''
   \<and> parseScript (Some (''Chris: Hello'' @ [CHR 0x0A] @ ''Naval:''))
       = [\<lparr> speaker = ''Chris'', spoken = ''Hello Naval:'' \<rparr>]"
  by code_simp

text \<open>
  Claim C10, amended. Every entry \<open>parseScript\<close> returns has the speaker \<open>Naval\<close> or
  \<open>Chris\<close>; the result is empty for a missing or empty script; otherwise the lines that
  are not blank are folded from the empty list. A line that begins with \<open>Naval:\<close> or
  \<open>Chris:\<close>, in upper or lower case, with a character other than a line terminator
  somewhere after the label, starts a new entry of that speaker. The text of the entry is
  \<open>entryText\<close>: the rest of the line from the first character after the label that is
  not white space, up to the next line terminator; and when only white space follows the
  label, the last character of it that is not a line terminator, alone. Any other line
  that is not blank and does not begin with \<open>=\<close>, a line with the label alone among them,
  is appended after a space, trimmed, to the text of the last entry, and is dropped when
  there is no entry yet; a line that begins with \<open>=\<close> is dropped.
\<close>

theorem parseScript_dialogues:
  "(\<forall>d\<in>set (parseScript script). speaker d = ''Naval'' \<or> speaker d = ''Chris'')
   \<and> parseScript None = [] \<and> parseScript (Some []) = []
   \<and> (s \<noteq> [] \<longrightarrow>
        parseScript (Some s)
          = foldl parseLine [] (filter (\<lambda>line. trim line \<noteq> []) (splitChar CHR 0x0A s)))
   \<and> (entryText ''Naval:'' line = Some t \<longrightarrow>
        parseLine dialogues line = dialogues @ [\<lparr> speaker = ''Naval'', spoken = t \<rparr>])
   \<and> (entryText ''Chris:'' line = Some t \<longrightarrow>
        parseLine dialogues line = dialogues @ [\<lparr> speaker = ''Chris'', spoken = t \<rparr>])
   \<and> (entryText ''Naval:'' line = None \<and> entryText ''Chris:'' line = None
        \<and> trim line \<noteq> [] \<and> \<not> startsWith line ''='' \<longrightarrow>
        parseLine (pre @ [e]) line = pre @ [e\<lparr> spoken := spoken e @ '' '' @ trim line \<rparr>]
        \<and> parseLine [] line = [])
   \<and> (entryText ''Naval:'' line = None \<and> entryText ''Chris:'' line = None
        \<and> (trim line = [] \<or> startsWith line ''='') \<longrightarrow>
        parseLine dialogues line = dialogues)
   \<and> (entryText label line \<noteq> None \<longleftrightarrow>
        hasLabel label line
        \<and> (\<exists>c\<in>set (drop (length label) line). \<not> isLineTerminator c))"
proof -
  have speakers: "\<forall>d\<in>set (parseScript script). speaker d = ''Naval'' \<or> speaker d = ''Chris''"
    using parseScript_speakersKnown [of script] by (simp add: speakersKnown_def)
  have empty: "parseScript None = []" "parseScript (Some []) = []"
    by (simp_all add: parseScript_def)
  have lines: "s \<noteq> [] \<longrightarrow>
        parseScript (Some s)
          = foldl parseLine [] (filter (\<lambda>line. trim line \<noteq> []) (splitChar CHR 0x0A s))"
    by (simp add: parseScript_def)
  have naval: "entryText ''Naval:'' line = Some t \<longrightarrow>
        parseLine dialogues line = dialogues @ [\<lparr> speaker = ''Naval'', spoken = t \<rparr>]"
    by (simp add: parseLine_def matchSpeaker_entryText)
  have chris: "entryText ''Chris:'' line = Some t \<longrightarrow>
        parseLine dialogues line = dialogues @ [\<lparr> speaker = ''Chris'', spoken = t \<rparr>]"
    using matchSpeaker_exclusive [of line t]
    by (simp add: parseLine_def matchSpeaker_entryText [symmetric])
  have other: "entryText ''Naval:'' line = None \<and> entryText ''Chris:'' line = None
        \<and> trim line \<noteq> [] \<and> \<not> startsWith line ''='' \<longrightarrow>
        parseLine (pre @ [e]) line = pre @ [e\<lparr> spoken := spoken e @ '' '' @ trim line \<rparr>]
        \<and> parseLine [] line = []"
    unfolding matchSpeaker_entryText [symmetric]
    by (simp add: parseLine_append_last) (simp add: parseLine_def)
  have dropped: "entryText ''Naval:'' line = None \<and> entryText ''Chris:'' line = None
        \<and> (trim line = [] \<or> startsWith line ''='') \<longrightarrow>
        parseLine dialogues line = dialogues"
    unfolding matchSpeaker_entryText [symmetric]
    by (auto simp: parseLine_def)
  have "entryText label line = None \<longleftrightarrow>
        \<not> (hasLabel label line
           \<and> (\<exists>c\<in>set (drop (length label) line). \<not> isLineTerminator c))"
    using matchSpeaker_None_iff [of label line]
    by (auto simp: matchSpeaker_entryText matchPrefix_eq hasLabel_def split: if_splits)
  then have starts: "entryText label line \<noteq> None \<longleftrightarrow>
        hasLabel label line
        \<and> (\<exists>c\<in>set (drop (length label) line). \<not> isLineTerminator c)"
    by simp
  from speakers empty lines naval chris other dropped starts show ?thesis
    by (intro conjI)
qed

theorem parseScript_dialogues_witness:
  "entryText ''Naval:'' ''naval:  Hello there'' = Some ''Hello there''
   \<and> parseLine [] ''naval:  Hello there'' = [\<lparr> speaker = ''Naval'', spoken = ''Hello there'' \<rparr>]
   \<and> entryText ''Chris:'' ''CHRIS:   '' = Some '' ''
   \<and> parseLine [] ''CHRIS:   '' = [\<lparr> speaker = ''Chris'', spoken = '' '' \<rparr>]
   \<and> entryText ''Naval:'' ''and more'' = None \<and> entryText ''Chris:'' ''and more'' = None
   \<and> parseLine [\<lparr> speaker = ''Naval'', spoken = ''Hello there'' \<rparr>] ''and more''
       = [\<lparr> speaker = ''Naval'', spoken = ''Hello there and more'' \<rparr>]
   \<and> parseLine [\<lparr> speaker = ''Naval'', spoken = ''Hello there'' \<rparr>] ''== part two''
       = [\<lparr> speaker = ''Naval'', spoken = ''Hello there'' \<rparr>]
   \<and> parseScript (Some ''Chris: Hi'') = foldl parseLine [] [''Chris: Hi'']
   \<and> hasLabel ''Naval:'' ''Naval:'' \<and> entryText ''Naval:'' ''Naval:'' = None"
proof -
  have m: "entryText ''Naval:'' ''naval:  Hello there'' = Some ''Hello there''"
    "entryText ''Chris:'' ''CHRIS:   '' = Some '' ''"
    "entryText ''Naval:'' ''and more'' = None" "entryText ''Chris:'' ''and more'' = None"
    "entryText ''Naval:'' ''== part two'' = None" "entryText ''Chris:'' ''== part two'' = None"
    by code_simp+
  have l: "trim ''and more'' = ''and more''" "\<not> startsWith ''and more'' ''=''"
    "startsWith ''== part two'' ''=''"
    "filter (\<lambda>line. trim line \<noteq> []) (splitChar CHR 0x0A ''Chris: Hi'') = [''Chris: Hi'']"
    "hasLabel ''Naval:'' ''Naval:''" "drop (length ''Naval:'') ''Naval:'' = []"
    by code_simp+
  have "parseLine [] ''naval:  Hello there'' = [\<lparr> speaker = ''Naval'', spoken = ''Hello there'' \<rparr>]"
    using parseScript_dialogues [of None "[]" "''naval:  Hello there''" "''Hello there''" "[]"] m
    by simp
  moreover have "parseLine [] ''CHRIS:   '' = [\<lparr> speaker = ''Chris'', spoken = '' '' \<rparr>]"
    using parseScript_dialogues [of None "[]" "''CHRIS:   ''" "'' ''" "[]"] m
    by simp
  moreover have "parseLine [\<lparr> speaker = ''Naval'', spoken = ''Hello there'' \<rparr>] ''and more''
       = [\<lparr> speaker = ''Naval'', spoken = ''Hello there and more'' \<rparr>]"
    using parseScript_dialogues [of None "[]" "''and more''" "[]" "[]" "[]"
        "\<lparr> speaker = ''Naval'', spoken = ''Hello there'' \<rparr>"] m l
    by simp
  moreover have "parseLine [\<lparr> speaker = ''Naval'', spoken = ''Hello there'' \<rparr>] ''== part two''
       = [\<lparr> speaker = ''Naval'', spoken = ''Hello there'' \<rparr>]"
    using parseScript_dialogues [of None "[]" "''== part two''" "[]"
        "[\<lparr> speaker = ''Naval'', spoken = ''Hello there'' \<rparr>]"] m l
    by simp
  moreover have "parseScript (Some ''Chris: Hi'') = foldl parseLine [] [''Chris: Hi'']"
    using parseScript_dialogues [of None "''Chris: Hi''"] l by simp
  moreover have "entryText ''Naval:'' ''Naval:'' = None"
    using parseScript_dialogues [of None "[]" "''Naval:''" "[]" "[]" "[]"
        "\<lparr> speaker = [], spoken = [] \<rparr>" "''Naval:''"] l
    by simp
  ultimately show ?thesis
    using m l by simp
qed

section \<open>Generating the podcast: \<open>handleSummary\<close>\<close>

text \<open>The JSON bodies of the three endpoints, with the fields the frontend reads.\<close>

record pdfData =
  cached :: bool
  pages :: nat

record chapterData =
  cached :: bool
  start_page :: nat
  end_page :: nat

record scriptData =
  script :: "string option"
  naval_lines :: nat
  chris_lines :: nat

record errorBody =
  detail :: "string option"

text \<open>
  What \<open>await fetch(...)\<close> and the \<open>await response.json()\<close> after it can give: the fetch is
  rejected with an error; or a response arrives, whose \<open>ok\<close> flag is false or true, and whose
  body is JSON or makes \<open>json()\<close> throw.
\<close>

datatype 'a body = Unparsable string | Json 'a

datatype 'a reply = Rejected string | NotOk "errorBody body" | Ok "'a body"

datatype endpoint = FindPdf | ExtractChapter | GenerateScript

definition url :: "endpoint \<Rightarrow> string" where
  "url e = (case e of
     FindPdf \<Rightarrow> ''http://localhost:8001/api/find-pdf''
   | ExtractChapter \<Rightarrow> ''http://localhost:8001/api/extract-chapter''
   | GenerateScript \<Rightarrow> ''http://localhost:8001/api/generate-script'')"

record params =
  title :: string
  author :: string

record playerState =
  book :: suggestion
  pdfInfo :: pdfData
  chapterInfo :: chapterData
  scriptInfo :: scriptData

datatype navigationState = BookState suggestion | PlayerState playerState

text \<open>What a handler does, in the order in which it does it.\<close>

datatype action =
    SetIsSearching bool
  | SetSearchStep string
  | SetDownloadError "string option"
  | Fetch endpoint params
  | Wait nat
  | Navigate string navigationState
  | ConsoleError string

fun received :: "'a reply \<Rightarrow> string \<Rightarrow> string + 'a" where
  \<comment> \<open>an \<open>await fetch\<close> with the check of \<open>ok\<close> and the reading of the body: the data, or
      the message of the error thrown\<close>
  "received (Rejected message) fallback = Inl message"
| "received (NotOk (Unparsable message)) fallback = Inl message"
| "received (NotOk (Json error)) fallback =
     Inl (case detail error of
            None \<Rightarrow> fallback
          | Some d \<Rightarrow> if d = [] then fallback else d)"
| "received (Ok (Unparsable message)) fallback = Inl message"
| "received (Ok (Json data)) fallback = Inr data"

definition catchError :: "string \<Rightarrow> action list" where
  \<comment> \<open>the \<open>catch\<close> block\<close>
  "catchError message =
     [ConsoleError message, SetDownloadError (Some message), SetIsSearching False]"

definition digit :: "nat \<Rightarrow> char" where
  "digit n = ''0123456789'' ! n"

function showNat :: "nat \<Rightarrow> string" where
  \<comment> \<open>a natural number in a template string\<close>
  "showNat n = (if n < 10 then [digit n] else showNat (n div 10) @ [digit (n mod 10)])"
  by pat_completeness auto
termination
  by (relation "measure id") auto

declare showNat.simps [simp del]

text \<open>
  The steps of \<open>handleSummary\<close>, as its comments number them. Each ends with the call of
  its endpoint; the last one opens the player page.
\<close>

definition findPdf :: "params \<Rightarrow> action list" where
  \<comment> \<open>Step 1: Download full book PDF\<close>
  "findPdf params =
     [SetIsSearching True, SetDownloadError None,
      SetSearchStep ''Searching for book PDF...'', Fetch FindPdf params]"

definition extractChapter :: "params \<Rightarrow> pdfData \<Rightarrow> action list" where
  \<comment> \<open>Step 2: Extract Chapter 1 using LLM\<close>
  "extractChapter params pdfData =
     [SetSearchStep (if pdfData.cached pdfData then ''Book found in library!''
                     else ''Downloaded book ('' @ showNat (pages pdfData) @ '' pages)''),
      Wait 500,
      SetSearchStep ''Analyzing book structure with AI...'',
      Wait 300,
      SetSearchStep ''Identifying Chapter 1 boundaries...'',
      Fetch ExtractChapter params]"

definition generateScript :: "params \<Rightarrow> chapterData \<Rightarrow> action list" where
  \<comment> \<open>Step 3: Generate podcast script\<close>
  "generateScript params chapterData =
     [SetSearchStep (if chapterData.cached chapterData then ''Chapter 1 ready!''
                     else ''Extracted Chapter 1: pages ''
                       @ showNat (start_page chapterData) @ ''-''
                       @ showNat (end_page chapterData)),
      Wait 500,
      SetSearchStep ''Writing podcast script with AI...'',
      Fetch GenerateScript params]"

definition openPlayer ::
  "suggestion \<Rightarrow> pdfData \<Rightarrow> chapterData \<Rightarrow> scriptData \<Rightarrow> action list" where
  \<comment> \<open>Navigate to audio player page\<close>
  "openPlayer selected pdfData chapterData scriptData =
     [SetSearchStep ''Podcast script ready!'',
      Wait 500,
      Navigate ''/player''
        (PlayerState \<lparr> book = selected, pdfInfo = pdfData,
           chapterInfo = chapterData, scriptInfo = scriptData \<rparr>)]"

text \<open>
  \<open>handleSummary\<close> for the selected book, given what the three endpoints answer when they
  are called. Each \<open>Fetch\<close> is an \<open>await fetch\<close>: what follows it in the list happens
  after its reply has arrived.
\<close>

definition handleSummary ::
  "suggestion \<Rightarrow> pdfData reply \<Rightarrow> chapterData reply \<Rightarrow> scriptData reply \<Rightarrow> action list" where
  "handleSummary selected pdfReply chapterReply scriptReply =
     (let params = \<lparr> title = suggestion.title selected, author = authors selected \<rparr> in
      findPdf params @
      (case received pdfReply ''Failed to find book'' of
         Inl message \<Rightarrow> catchError message
       | Inr pdfData \<Rightarrow>
           extractChapter params pdfData @
           (case received chapterReply ''Failed to extract chapter'' of
              Inl message \<Rightarrow> catchError message
            | Inr chapterData \<Rightarrow>
                generateScript params chapterData @
                (case received scriptReply ''Failed to generate script'' of
                   Inl message \<Rightarrow> catchError message
                 | Inr scriptData \<Rightarrow>
                     openPlayer selected pdfData chapterData scriptData))))"

text \<open>The state of \<open>BookDetails\<close> that \<open>handleSummary\<close> writes, and what an action does to it.\<close>

record bookDetails =
  isSearching :: bool
  searchStep :: string
  downloadError :: "string option"

fun perform :: "bookDetails \<Rightarrow> action \<Rightarrow> bookDetails" where
  "perform st (SetIsSearching b) = st\<lparr> isSearching := b \<rparr>"
| "perform st (SetSearchStep s) = st\<lparr> searchStep := s \<rparr>"
| "perform st (SetDownloadError e) = st\<lparr> downloadError := e \<rparr>"
| "perform st (Fetch e p) = st"
| "perform st (Wait ms) = st"
| "perform st (Navigate path state) = st"
| "perform st (ConsoleError message) = st"

definition fetches :: "action list \<Rightarrow> endpoint list" where
  "fetches actions = concat (map (\<lambda>a. case a of Fetch e p \<Rightarrow> [e] | _ \<Rightarrow> []) actions)"

definition navigations :: "action list \<Rightarrow> (string \<times> navigationState) list" where
  "navigations actions =
     concat (map (\<lambda>a. case a of Navigate path state \<Rightarrow> [(path, state)] | _ \<Rightarrow> []) actions)"

definition succeeded :: "'a reply \<Rightarrow> bool" where
  \<comment> \<open>an \<open>ok\<close> response with a JSON body\<close>
  "succeeded r = (case r of Ok (Json d) \<Rightarrow> True | _ \<Rightarrow> False)"

definition renderedError :: "bookDetails \<Rightarrow> string option" where
  \<comment> \<open>the error the view shows: none under the searching overlay, and
      \<open>downloadError && ...\<close> shows a message that is not empty\<close>
  "renderedError st =
     (if isSearching st then None
      else case downloadError st of
             None \<Rightarrow> None
           | Some message \<Rightarrow> if message = [] then None else Some message)"

subsection \<open>The order of the calls\<close>

lemma succeeded_received:
  "succeeded r \<longleftrightarrow> (\<exists>d. received r fallback = Inr d)"
  "\<not> succeeded r \<longleftrightarrow> (\<exists>message. received r fallback = Inl message)"
proof -
  show "succeeded r \<longleftrightarrow> (\<exists>d. received r fallback = Inr d)"
  proof (cases r)
    case (Rejected m)
    then show ?thesis by (simp add: succeeded_def)
  next
    case (NotOk b)
    then show ?thesis by (cases b) (simp_all add: succeeded_def)
  next
    case (Ok b)
    then show ?thesis by (cases b) (simp_all add: succeeded_def)
  qed
  then show "\<not> succeeded r \<longleftrightarrow> (\<exists>message. received r fallback = Inl message)"
    by (cases "received r fallback") auto
qed

lemma received_Ok_Json: "received r fallback = Inr d \<longleftrightarrow> r = Ok (Json d)"
proof (cases r)
  case (Rejected m)
  then show ?thesis by simp
next
  case (NotOk b)
  then show ?thesis by (cases b) simp_all
next
  case (Ok b)
  then show ?thesis by (cases b) auto
qed

lemma fetches_simps [simp]:
  "fetches [] = []"
  "fetches (Fetch e p # as) = e # fetches as"
  "fetches (SetIsSearching b # as) = fetches as"
  "fetches (SetSearchStep s # as) = fetches as"
  "fetches (SetDownloadError err # as) = fetches as"
  "fetches (Wait ms # as) = fetches as"
  "fetches (Navigate path state # as) = fetches as"
  "fetches (ConsoleError message # as) = fetches as"
  "fetches (as @ bs) = fetches as @ fetches bs"
  by (simp_all add: fetches_def)

lemma navigations_simps [simp]:
  "navigations [] = []"
  "navigations (Navigate path state # as) = (path, state) # navigations as"
  "navigations (Fetch e p # as) = navigations as"
  "navigations (SetIsSearching b # as) = navigations as"
  "navigations (SetSearchStep s # as) = navigations as"
  "navigations (SetDownloadError err # as) = navigations as"
  "navigations (Wait ms # as) = navigations as"
  "navigations (ConsoleError message # as) = navigations as"
  "navigations (as @ bs) = navigations as @ navigations bs"
  by (simp_all add: navigations_def)

lemma catchError_simps [simp]:
  "fetches (catchError message) = []"
  "navigations (catchError message) = []"
  by (simp_all add: catchError_def)

lemma steps_simps [simp]:
  "fetches (findPdf params) = [FindPdf]"
  "fetches (extractChapter params pdfData) = [ExtractChapter]"
  "fetches (generateScript params chapterData) = [GenerateScript]"
  "navigations (findPdf params) = []"
  "navigations (extractChapter params pdfData) = []"
  "navigations (generateScript params chapterData) = []"
  by (simp_all add: findPdf_def extractChapter_def generateScript_def)

lemma perform_catchError:
  "downloadError (foldl perform st (as @ catchError message)) = Some message"
  "isSearching (foldl perform st (as @ catchError message)) = False"
  by (simp_all add: catchError_def)

text \<open>The four ways \<open>handleSummary\<close> can go, by the first reply that is not a success.\<close>

lemma handleSummary_cases:
  obtains
    (pdf_failed) message where "received pdfReply ''Failed to find book'' = Inl message"
      "\<exists>pre. handleSummary selected pdfReply chapterReply scriptReply = pre @ catchError message
             \<and> fetches pre = [FindPdf] \<and> navigations pre = []"
  | (chapter_failed) pdfData message where "pdfReply = Ok (Json pdfData)"
      "received chapterReply ''Failed to extract chapter'' = Inl message"
      "\<exists>pre. handleSummary selected pdfReply chapterReply scriptReply = pre @ catchError message
             \<and> fetches pre = [FindPdf, ExtractChapter] \<and> navigations pre = []"
  | (script_failed) pdfData chapterData message where "pdfReply = Ok (Json pdfData)"
      "chapterReply = Ok (Json chapterData)"
      "received scriptReply ''Failed to generate script'' = Inl message"
      "\<exists>pre. handleSummary selected pdfReply chapterReply scriptReply = pre @ catchError message
             \<and> fetches pre = [FindPdf, ExtractChapter, GenerateScript] \<and> navigations pre = []"
  | (all_succeeded) pdfData chapterData scriptData where "pdfReply = Ok (Json pdfData)"
      "chapterReply = Ok (Json chapterData)" "scriptReply = Ok (Json scriptData)"
      "\<exists>pre. handleSummary selected pdfReply chapterReply scriptReply
             = pre @ [Navigate ''/player'' (PlayerState \<lparr> book = selected, pdfInfo = pdfData,
                         chapterInfo = chapterData, scriptInfo = scriptData \<rparr>)]
             \<and> fetches pre = [FindPdf, ExtractChapter, GenerateScript] \<and> navigations pre = []"
proof -
  define params where "params = \<lparr> title = suggestion.title selected, author = authors selected \<rparr>"
  show ?thesis
  proof (cases "received pdfReply ''Failed to find book''")
    case (Inl message)
    then have "handleSummary selected pdfReply chapterReply scriptReply
        = findPdf params @ catchError message \<and> fetches (findPdf params) = [FindPdf]
          \<and> navigations (findPdf params) = []"
      by (simp add: handleSummary_def Let_def params_def)
    then have "\<exists>pre. handleSummary selected pdfReply chapterReply scriptReply = pre @ catchError message
               \<and> fetches pre = [FindPdf] \<and> navigations pre = []"
      by blast
    with Inl show ?thesis
      by (rule pdf_failed)
  next
    case (Inr pdfData)
    then have p: "pdfReply = Ok (Json pdfData)"
      by (simp add: received_Ok_Json)
    show ?thesis
    proof (cases "received chapterReply ''Failed to extract chapter''")
      case (Inl message)
      then have "handleSummary selected pdfReply chapterReply scriptReply
          = (findPdf params @ extractChapter params pdfData) @ catchError message
            \<and> fetches (findPdf params @ extractChapter params pdfData) = [FindPdf, ExtractChapter]
            \<and> navigations (findPdf params @ extractChapter params pdfData) = []"
        using p by (simp add: handleSummary_def Let_def params_def)
      then have "\<exists>pre. handleSummary selected pdfReply chapterReply scriptReply
                 = pre @ catchError message
               \<and> fetches pre = [FindPdf, ExtractChapter] \<and> navigations pre = []"
        by blast
      with p Inl show ?thesis
        by (rule chapter_failed)
    next
      case (Inr chapterData)
      then have c: "chapterReply = Ok (Json chapterData)"
        by (simp add: received_Ok_Json)
      define pre where
        "pre = findPdf params @ extractChapter params pdfData @ generateScript params chapterData"
      have pre: "fetches pre = [FindPdf, ExtractChapter, GenerateScript]" "navigations pre = []"
        by (simp_all add: pre_def)
      show ?thesis
      proof (cases "received scriptReply ''Failed to generate script''")
        case (Inl message)
        then have "handleSummary selected pdfReply chapterReply scriptReply = pre @ catchError message"
          using p c by (simp add: handleSummary_def Let_def params_def pre_def)
        with pre have "\<exists>pre. handleSummary selected pdfReply chapterReply scriptReply
                   = pre @ catchError message
                 \<and> fetches pre = [FindPdf, ExtractChapter, GenerateScript]
                 \<and> navigations pre = []"
          by blast
        with p c Inl show ?thesis
          by (rule script_failed)
      next
        case (Inr scriptData)
        then have s: "scriptReply = Ok (Json scriptData)"
          by (simp add: received_Ok_Json)
        define pre' where "pre' = pre @ [SetSearchStep ''Podcast script ready!'', Wait 500]"
        have "handleSummary selected pdfReply chapterReply scriptReply
               = pre' @ [Navigate ''/player'' (PlayerState \<lparr> book = selected, pdfInfo = pdfData,
                           chapterInfo = chapterData, scriptInfo = scriptData \<rparr>)]"
          using p c s by (simp add: handleSummary_def Let_def params_def pre_def pre'_def openPlayer_def)
        moreover have "fetches pre' = [FindPdf, ExtractChapter, GenerateScript]" "navigations pre' = []"
          using pre by (simp_all add: pre'_def)
        ultimately have "\<exists>pre. handleSummary selected pdfReply chapterReply scriptReply
               = pre @ [Navigate ''/player'' (PlayerState \<lparr> book = selected, pdfInfo = pdfData,
                           chapterInfo = chapterData, scriptInfo = scriptData \<rparr>)]
               \<and> fetches pre = [FindPdf, ExtractChapter, GenerateScript] \<and> navigations pre = []"
          by blast
        with p c s show ?thesis
          by (rule all_succeeded)
      qed
    qed
  qed
qed

text \<open>
  Claim C3. In every run of \<open>handleSummary\<close> the endpoints are called in the order
  find-pdf, extract-chapter, generate-script, each of the later two only when the call
  before it has returned an ok response with its data; the page \<open>/player\<close> is opened
  only when all three calls have succeeded, as the last action and after the three calls,
  with the book and the three responses in the navigation state.
\<close>

theorem handleSummary_sequential:
  "fetches (handleSummary selected pdfReply chapterReply scriptReply)
     = FindPdf # (if succeeded pdfReply
                  then ExtractChapter # (if succeeded chapterReply then [GenerateScript] else [])
                  else [])
   \<and> (pdfReply = Ok (Json pdfData) \<and> chapterReply = Ok (Json chapterData)
        \<and> scriptReply = Ok (Json scriptData) \<longrightarrow>
        (\<exists>pre. handleSummary selected pdfReply chapterReply scriptReply
           = pre @ [Navigate ''/player'' (PlayerState \<lparr> book = selected, pdfInfo = pdfData,
                       chapterInfo = chapterData, scriptInfo = scriptData \<rparr>)]
           \<and> fetches pre = [FindPdf, ExtractChapter, GenerateScript] \<and> navigations pre = []))
   \<and> (\<not> (succeeded pdfReply \<and> succeeded chapterReply \<and> succeeded scriptReply) \<longrightarrow>
        navigations (handleSummary selected pdfReply chapterReply scriptReply) = [])"
proof (cases selected pdfReply chapterReply scriptReply rule: handleSummary_cases)
  case (pdf_failed message)
  then show ?thesis
    using succeeded_received(2) [of pdfReply "''Failed to find book''"] by auto
next
  case (chapter_failed p message)
  then show ?thesis
    using succeeded_received(2) [of chapterReply "''Failed to extract chapter''"]
    by (auto simp: succeeded_def)
next
  case (script_failed p c message)
  then show ?thesis
    using succeeded_received(2) [of scriptReply "''Failed to generate script''"]
    by (auto simp: succeeded_def)
next
  case (all_succeeded p c s)
  then show ?thesis
    by (auto simp: succeeded_def)
qed

theorem handleSummary_sequential_witness:
  "navigations (handleSummary supermanBook
       (Ok (Json \<lparr> pdfData.cached = False, pages = 312 \<rparr>))
       (Ok (Json \<lparr> chapterData.cached = True, start_page = 9, end_page = 31 \<rparr>))
       (Ok (Json \<lparr> script = Some ''Naval: Hello'', naval_lines = 1, chris_lines = 0 \<rparr>)))
     = [(''/player'', PlayerState \<lparr> book = supermanBook,
          pdfInfo = \<lparr> pdfData.cached = False, pages = 312 \<rparr>,
          chapterInfo = \<lparr> chapterData.cached = True, start_page = 9, end_page = 31 \<rparr>,
          scriptInfo = \<lparr> script = Some ''Naval: Hello'', naval_lines = 1, chris_lines = 0 \<rparr> \<rparr>)]
   \<and> fetches (handleSummary supermanBook
       (Ok (Json \<lparr> pdfData.cached = False, pages = 312 \<rparr>))
       (NotOk (Json \<lparr> detail = Some ''No chapter found'' \<rparr>))
       (Rejected ''Failed to fetch'')) = [FindPdf, ExtractChapter]
   \<and> navigations (handleSummary supermanBook
       (Ok (Json \<lparr> pdfData.cached = False, pages = 312 \<rparr>))
       (NotOk (Json \<lparr> detail = Some ''No chapter found'' \<rparr>))
       (Rejected ''Failed to fetch'')) = []"
proof -
  have "navigations (handleSummary supermanBook
       (Ok (Json \<lparr> pdfData.cached = False, pages = 312 \<rparr>))
       (Ok (Json \<lparr> chapterData.cached = True, start_page = 9, end_page = 31 \<rparr>))
       (Ok (Json \<lparr> script = Some ''Naval: Hello'', naval_lines = 1, chris_lines = 0 \<rparr>)))
     = [(''/player'', PlayerState \<lparr> book = supermanBook,
          pdfInfo = \<lparr> pdfData.cached = False, pages = 312 \<rparr>,
          chapterInfo = \<lparr> chapterData.cached = True, start_page = 9, end_page = 31 \<rparr>,
          scriptInfo = \<lparr> script = Some ''Naval: Hello'', naval_lines = 1, chris_lines = 0 \<rparr> \<rparr>)]"
    using handleSummary_sequential [of "supermanBook"
        "Ok (Json \<lparr> pdfData.cached = False, pages = 312 \<rparr>)"
        "Ok (Json \<lparr> chapterData.cached = True, start_page = 9, end_page = 31 \<rparr>)"
        "Ok (Json \<lparr> script = Some ''Naval: Hello'', naval_lines = 1, chris_lines = 0 \<rparr>)"
        "\<lparr> pdfData.cached = False, pages = 312 \<rparr>"
        "\<lparr> chapterData.cached = True, start_page = 9, end_page = 31 \<rparr>"
        "\<lparr> script = Some ''Naval: Hello'', naval_lines = 1, chris_lines = 0 \<rparr>"]
    by auto
  moreover have "fetches (handleSummary supermanBook
       (Ok (Json \<lparr> pdfData.cached = False, pages = 312 \<rparr>))
       (NotOk (Json \<lparr> detail = Some ''No chapter found'' \<rparr>))
       (Rejected ''Failed to fetch'')) = [FindPdf, ExtractChapter]
   \<and> navigations (handleSummary supermanBook
       (Ok (Json \<lparr> pdfData.cached = False, pages = 312 \<rparr>))
       (NotOk (Json \<lparr> detail = Some ''No chapter found'' \<rparr>))
       (Rejected ''Failed to fetch'')) = []"
    using handleSummary_sequential [of "supermanBook"
        "Ok (Json \<lparr> pdfData.cached = False, pages = 312 \<rparr>)"
        "NotOk (Json \<lparr> detail = Some ''No chapter found'' \<rparr>)"
        "Rejected ''Failed to fetch''"]
    by (simp add: succeeded_def)
  ultimately show ?thesis
    by simp
qed

subsection \<open>A call that fails\<close>

text \<open>
  Claim C4. When one of the three calls fails, by a response that is not ok or by an
  error thrown, \<open>handleSummary\<close> ends with its \<open>catch\<close> block: the message of the error is
  logged and stored in \<open>downloadError\<close>, from where the view shows it, and the searching
  flag is reset. No endpoint is called again, none is called after the failure, and the
  player page is not opened.
\<close>

theorem handleSummary_failure:
  "\<not> (succeeded pdfReply \<and> succeeded chapterReply \<and> succeeded scriptReply) \<longrightarrow>
     (\<exists>pre message.
        handleSummary selected pdfReply chapterReply scriptReply
          = pre @ [ConsoleError message, SetDownloadError (Some message), SetIsSearching False]
        \<and> (received pdfReply ''Failed to find book'' = Inl message
            \<or> succeeded pdfReply
               \<and> received chapterReply ''Failed to extract chapter'' = Inl message
            \<or> succeeded pdfReply \<and> succeeded chapterReply
               \<and> received scriptReply ''Failed to generate script'' = Inl message)
        \<and> downloadError
             (foldl perform st (handleSummary selected pdfReply chapterReply scriptReply))
            = Some message
        \<and> isSearching
             (foldl perform st (handleSummary selected pdfReply chapterReply scriptReply))
            = False
        \<and> renderedError
             (foldl perform st (handleSummary selected pdfReply chapterReply scriptReply))
            = (if message = [] then None else Some message))
     \<and> navigations (handleSummary selected pdfReply chapterReply scriptReply) = []
     \<and> distinct (fetches (handleSummary selected pdfReply chapterReply scriptReply))"
proof (cases selected pdfReply chapterReply scriptReply rule: handleSummary_cases)
  case (pdf_failed message)
  then obtain pre where "handleSummary selected pdfReply chapterReply scriptReply
      = pre @ catchError message" "fetches pre = [FindPdf]" "navigations pre = []"
    by blast
  with pdf_failed(1) show ?thesis
    by (auto simp: perform_catchError renderedError_def catchError_def)
next
  case (chapter_failed p message)
  then obtain pre where "handleSummary selected pdfReply chapterReply scriptReply
      = pre @ catchError message" "fetches pre = [FindPdf, ExtractChapter]" "navigations pre = []"
    by blast
  with chapter_failed(1,2) show ?thesis
    by (auto simp: perform_catchError renderedError_def catchError_def succeeded_def)
next
  case (script_failed p c message)
  then obtain pre where "handleSummary selected pdfReply chapterReply scriptReply
      = pre @ catchError message" "fetches pre = [FindPdf, ExtractChapter, GenerateScript]"
    "navigations pre = []"
    by blast
  with script_failed(1,2,3) show ?thesis
    by (auto simp: perform_catchError renderedError_def catchError_def succeeded_def)
next
  case (all_succeeded p c s)
  then show ?thesis
    by (simp add: succeeded_def)
qed

theorem handleSummary_failure_witness:
  "\<not> succeeded (NotOk (Json \<lparr> detail = Some ''No chapter found'' \<rparr>) :: chapterData reply)
   \<and> downloadError (foldl perform \<lparr> isSearching = False, searchStep = [], downloadError = None \<rparr>
        (handleSummary supermanBook
           (Ok (Json \<lparr> pdfData.cached = False, pages = 312 \<rparr>))
           (NotOk (Json \<lparr> detail = Some ''No chapter found'' \<rparr>))
           (Rejected ''Failed to fetch''))) = Some ''No chapter found''
   \<and> isSearching (foldl perform \<lparr> isSearching = False, searchStep = [], downloadError = None \<rparr>
        (handleSummary supermanBook
           (Ok (Json \<lparr> pdfData.cached = False, pages = 312 \<rparr>))
           (NotOk (Json \<lparr> detail = Some ''No chapter found'' \<rparr>))
           (Rejected ''Failed to fetch''))) = False
   \<and> navigations (handleSummary supermanBook
           (Ok (Json \<lparr> pdfData.cached = False, pages = 312 \<rparr>))
           (NotOk (Json \<lparr> detail = Some ''No chapter found'' \<rparr>))
           (Rejected ''Failed to fetch'')) = []"
proof -
  have failed: "\<not> succeeded (NotOk (Json \<lparr> detail = Some ''No chapter found'' \<rparr>) :: chapterData reply)"
    by (simp add: succeeded_def)
  have ok: "succeeded (Ok (Json \<lparr> pdfData.cached = False, pages = 312 \<rparr>))"
    by (simp add: succeeded_def)
  from handleSummary_failure [of "Ok (Json \<lparr> pdfData.cached = False, pages = 312 \<rparr>)"
      "NotOk (Json \<lparr> detail = Some ''No chapter found'' \<rparr>)" "Rejected ''Failed to fetch''"
      "supermanBook"
      "\<lparr> isSearching = False, searchStep = [], downloadError = None \<rparr>"] failed ok
  show ?thesis
    by auto
qed

section \<open>The search input: \<open>BookAutocomplete\<close>\<close>

text \<open>
  A request of \<open>fetchBooks\<close>: the \<open>AbortController\<close> it creates and the fetch that carries
  its signal. A request is in flight from the call of \<open>fetch\<close> until it is aborted or its
  promise settles.
\<close>

record request =
  requestQuery :: string
  requestKey :: string
  aborted :: bool
  settled :: bool

definition inFlight :: "request \<Rightarrow> bool" where
  "inFlight r \<longleftrightarrow> \<not> aborted r \<and> \<not> settled r"

text \<open>A timeout of \<open>handleInputChange\<close>: its callback calls \<open>fetchBooks\<close> with the value.\<close>

datatype timerStatus = Pending | Cleared | Fired

record timer =
  timerValue :: string
  delay :: nat
  status :: timerStatus

text \<open>
  The state of the component, its two refs, and what they refer to: the module's
  \<open>searchCache\<close>, the requests made and the timeouts set so far. A ref holds the index of
  its request or timeout, and \<open>None\<close> while it is \<open>null\<close>; a ref that is set is truthy, as
  a controller and the positive id of a timeout are. The timeout of the typewriter effect
  is not among \<open>timers\<close>: the effect owns it, see below.
\<close>

record autocomplete =
  query :: string
  suggestions :: "suggestion list"
  isLoading :: bool
  isOpen :: bool
  activeIndex :: int
  isFocused :: bool
  displayPlaceholder :: string
  isTyping :: bool
  abortControllerRef :: "nat option"
  debounceTimerRef :: "nat option"
  searchCache :: "string \<rightharpoonup> suggestion list"
  requests :: "request list"
  timers :: "timer list"

definition mount :: "(string \<rightharpoonup> suggestion list) \<Rightarrow> autocomplete" where
  \<comment> \<open>the component when it mounts, with what the cache of the module holds by then\<close>
  "mount cache =
     \<lparr> query = [], suggestions = [], isLoading = False, isOpen = False, activeIndex = - 1,
       isFocused = False, displayPlaceholder = [], isTyping = True,
       abortControllerRef = None, debounceTimerRef = None,
       searchCache = cache, requests = [], timers = [] \<rparr>"

subsection \<open>The typewriter placeholder\<close>

definition TYPEWRITER_TEXT :: string where
  "TYPEWRITER_TEXT = ''Search for any book...''"

definition TYPING_SPEED :: nat where "TYPING_SPEED = 80"
definition DELETING_SPEED :: nat where "DELETING_SPEED = 40"
definition PAUSE_AFTER_TYPE :: nat where "PAUSE_AFTER_TYPE = 2000"
definition PAUSE_AFTER_DELETE :: nat where "PAUSE_AFTER_DELETE = 500"

text \<open>
  The typewriter effect runs again after every change of the state it reads, and clears
  the timeout it had set. So at most one timeout of the effect is pending, and it is the
  one the current state asks for: its delay, and what its callback does.
\<close>

definition typewriterDelay :: "autocomplete \<Rightarrow> nat option" where
  "typewriterDelay s =
     (if 0 < length (query s) \<or> isFocused s then None
      else if isTyping s then
        (if length (displayPlaceholder s) < length TYPEWRITER_TEXT then Some TYPING_SPEED
         else Some PAUSE_AFTER_TYPE)
      else
        (if 0 < length (displayPlaceholder s) then Some DELETING_SPEED
         else Some PAUSE_AFTER_DELETE))"

definition typewriterFires :: "autocomplete \<Rightarrow> autocomplete" where
  "typewriterFires s =
     (if 0 < length (query s) \<or> isFocused s then s
      else if isTyping s then
        (if length (displayPlaceholder s) < length TYPEWRITER_TEXT
         then s\<lparr> displayPlaceholder := take (length (displayPlaceholder s) + 1) TYPEWRITER_TEXT \<rparr>
         else s\<lparr> isTyping := False \<rparr>)
      else
        (if 0 < length (displayPlaceholder s)
         then s\<lparr> displayPlaceholder := butlast (displayPlaceholder s) \<rparr>
         else s\<lparr> isTyping := True \<rparr>))"

definition placeholder :: "autocomplete \<Rightarrow> string" where
  \<comment> \<open>the \<open>placeholder\<close> attribute of the input\<close>
  "placeholder s =
     (if isFocused s \<or> 0 < length (query s) then ''Search for any book...''
      else displayPlaceholder s)"

subsection \<open>Searching\<close>

definition abort :: "nat \<Rightarrow> autocomplete \<Rightarrow> autocomplete" where
  \<comment> \<open>\<open>controller.abort()\<close>\<close>
  "abort c s =
     (if c < length (requests s)
      then s\<lparr> requests := (requests s)[c := (requests s ! c)\<lparr> aborted := True \<rparr>] \<rparr>
      else s)"

definition clearTimeout :: "nat \<Rightarrow> autocomplete \<Rightarrow> autocomplete" where
  "clearTimeout t s =
     (if t < length (timers s) \<and> status (timers s ! t) = Pending
      then s\<lparr> timers := (timers s)[t := (timers s ! t)\<lparr> status := Cleared \<rparr>] \<rparr>
      else s)"

text \<open>\<open>fetchBooks\<close> up to its \<open>await fetch\<close>.\<close>

definition fetchBooks :: "string \<Rightarrow> autocomplete \<Rightarrow> autocomplete" where
  "fetchBooks searchQuery s =
     (let cleanQuery = trim searchQuery;
          cacheKey = toLowerCase cleanQuery
      in case searchCache s cacheKey of
           Some hit \<Rightarrow> s\<lparr> suggestions := hit, isLoading := False, isOpen := True \<rparr>
         | None \<Rightarrow>
             let s1 = (case abortControllerRef s of None \<Rightarrow> s | Some c \<Rightarrow> abort c s)
             in s1\<lparr> abortControllerRef := Some (length (requests s1)),
                    requests := requests s1 @
                      [\<lparr> requestQuery = cleanQuery, requestKey = cacheKey,
                         aborted = False, settled = False \<rparr>] \<rparr>)"

text \<open>
  The rest of \<open>fetchBooks\<close>, when the fetch of request \<open>c\<close> settles with a reply. An aborted
  fetch is rejected with an \<open>AbortError\<close>, which the \<open>catch\<close> block passes over. What the
  pipeline throws is caught as any other error: the suggestions are emptied, and the line
  that fills the cache is not reached.
\<close>

definition fetchSettles :: "nat \<Rightarrow> doc list reply \<Rightarrow> autocomplete \<Rightarrow> autocomplete" where
  "fetchSettles c r s =
     (if c < length (requests s) \<and> \<not> settled (requests s ! c) then
        let request = requests s ! c;
            s1 = s\<lparr> requests := (requests s)[c := request\<lparr> settled := True \<rparr>] \<rparr>
        in if aborted request then s1\<lparr> isLoading := False \<rparr>
           else
             (case r of
                Ok (Json docs) \<Rightarrow>
                  (case rankBooks (requestQuery request) docs of
                     Inr results \<Rightarrow>
                       s1\<lparr> searchCache := (searchCache s1)(requestKey request \<mapsto> results),
                            suggestions := results, isOpen := True, isLoading := False \<rparr>
                   | Inl e \<Rightarrow> s1\<lparr> suggestions := [], isLoading := False \<rparr>)
              | _ \<Rightarrow> s1\<lparr> suggestions := [], isLoading := False \<rparr>)
      else s)"

definition handleInputChange :: "string \<Rightarrow> autocomplete \<Rightarrow> autocomplete" where
  "handleInputChange v s =
     (let s1 = s\<lparr> query := v, activeIndex := - 1 \<rparr>;
          s2 = (case debounceTimerRef s1 of None \<Rightarrow> s1 | Some t \<Rightarrow> clearTimeout t s1)
      in if length (trim v) < 2
         then s2\<lparr> suggestions := [], isOpen := False, isLoading := False \<rparr>
         else s2\<lparr> isLoading := True,
                  debounceTimerRef := Some (length (timers s2)),
                  timers := timers s2 @ [\<lparr> timerValue = v, delay = 200, status = Pending \<rparr>] \<rparr>)"

definition debounceFires :: "nat \<Rightarrow> autocomplete \<Rightarrow> autocomplete" where
  \<comment> \<open>the timeout \<open>t\<close> expires and runs its callback\<close>
  "debounceFires t s =
     (if t < length (timers s) \<and> status (timers s ! t) = Pending
      then fetchBooks (timerValue (timers s ! t))
             (s\<lparr> timers := (timers s)[t := (timers s ! t)\<lparr> status := Fired \<rparr>] \<rparr>)
      else s)"

subsection \<open>Selecting a suggestion\<close>

definition selectSuggestion ::
  "(suggestion \<Rightarrow> action list) \<Rightarrow> suggestion \<Rightarrow> autocomplete \<Rightarrow> action list \<times> autocomplete" where
  \<comment> \<open>the result has what the \<open>onSelect\<close> of the props does. The focus that
      \<open>inputRef.current?.focus()\<close> gives to the input is the event \<open>Focus\<close>.\<close>
  "selectSuggestion onSelect selected s =
     (onSelect selected,
      s\<lparr> query := suggestion.title selected, suggestions := [], isOpen := False,
         activeIndex := - 1 \<rparr>)"

datatype key = ArrowDown | ArrowUp | Enter | Tab | Escape | OtherKey

definition handleKeyDown ::
  "(suggestion \<Rightarrow> action list) \<Rightarrow> key \<Rightarrow> autocomplete \<Rightarrow> action list \<times> autocomplete" where
  "handleKeyDown onSelect k s =
     (if \<not> isOpen s \<or> length (suggestions s) = 0 then ([], s)
      else case k of
        ArrowDown \<Rightarrow>
          ([], s\<lparr> activeIndex := (if activeIndex s < int (length (suggestions s)) - 1
                                    then activeIndex s + 1 else 0) \<rparr>)
      | ArrowUp \<Rightarrow>
          ([], s\<lparr> activeIndex := (if 0 < activeIndex s then activeIndex s - 1
                                    else int (length (suggestions s)) - 1) \<rparr>)
      | Enter \<Rightarrow>
          (if 0 \<le> activeIndex s \<and> activeIndex s < int (length (suggestions s))
           then selectSuggestion onSelect (suggestions s ! nat (activeIndex s)) s else ([], s))
      | Tab \<Rightarrow>
          (if 0 \<le> activeIndex s \<and> activeIndex s < int (length (suggestions s))
           then selectSuggestion onSelect (suggestions s ! nat (activeIndex s)) s else ([], s))
      | Escape \<Rightarrow> ([], s\<lparr> isOpen := False, activeIndex := - 1 \<rparr>)
      | OtherKey \<Rightarrow> ([], s))"

definition onFocus :: "autocomplete \<Rightarrow> autocomplete" where
  "onFocus s =
     (let s1 = s\<lparr> isFocused := True \<rparr>
      in if 2 \<le> length (trim (query s)) \<and> 0 < length (suggestions s)
         then s1\<lparr> isOpen := True \<rparr> else s1)"

definition unmount :: "autocomplete \<Rightarrow> autocomplete" where
  \<comment> \<open>the cleanup on unmount\<close>
  "unmount s =
     (let s1 = (case debounceTimerRef s of None \<Rightarrow> s | Some t \<Rightarrow> clearTimeout t s)
      in case abortControllerRef s1 of None \<Rightarrow> s1 | Some c \<Rightarrow> abort c s1)"

subsection \<open>The events of the component\<close>

datatype event =
    InputChange string
  | Focus
  | Blur
  | KeyDown key
  | Click nat
  | MouseEnter nat
  | ClickOutside
  | DebounceFires nat
  | FetchSettles nat "doc list reply"
  | TypewriterFires
  | Unmount

definition handle ::
  "(suggestion \<Rightarrow> action list) \<Rightarrow> event \<Rightarrow> autocomplete \<Rightarrow> action list \<times> autocomplete" where
  "handle onSelect e s =
     (case e of
        InputChange v \<Rightarrow> ([], handleInputChange v s)
      | Focus \<Rightarrow> ([], onFocus s)
      | Blur \<Rightarrow> ([], s\<lparr> isFocused := False \<rparr>)
      | KeyDown k \<Rightarrow> handleKeyDown onSelect k s
      | Click i \<Rightarrow>
          (if isOpen s \<and> i < length (suggestions s)
           then selectSuggestion onSelect (suggestions s ! i) s else ([], s))
      | MouseEnter i \<Rightarrow>
          (if isOpen s \<and> i < length (suggestions s)
           then ([], s\<lparr> activeIndex := int i \<rparr>) else ([], s))
      | ClickOutside \<Rightarrow> ([], s\<lparr> isOpen := False \<rparr>)
      | DebounceFires t \<Rightarrow> ([], debounceFires t s)
      | FetchSettles c r \<Rightarrow> ([], fetchSettles c r s)
      | TypewriterFires \<Rightarrow> ([], typewriterFires s)
      | Unmount \<Rightarrow> ([], unmount s))"

fun run ::
  "(suggestion \<Rightarrow> action list) \<Rightarrow> event list \<Rightarrow> autocomplete \<Rightarrow> action list \<times> autocomplete" where
  "run onSelect [] s = ([], s)"
| "run onSelect (e # es) s =
     (let (acts, s1) = handle onSelect e s;
          (rest, s2) = run onSelect es s1
      in (acts @ rest, s2))"

definition after :: "event list \<Rightarrow> autocomplete \<Rightarrow> autocomplete" where
  \<comment> \<open>the state after the events, whatever \<open>onSelect\<close> does\<close>
  "after es s = snd (run (\<lambda>b. []) es s)"


subsection \<open>The suggestions of a search\<close>

text \<open>
  Claim C2, amended. The pipeline throws exactly when a document without a title passes
  the filter, which it then does by an edition count above 50; \<open>fetchBooks\<close> catches the
  error, sets the suggestion list to the empty list and caches nothing. Otherwise the
  pipeline returns the suggestion list, which \<open>fetchBooks\<close> sets and caches. The list has
  at most 6 entries, in non-increasing order of the combined score; no two entries have
  the same title once lower-cased and stripped of the characters that are neither word
  characters nor white space; every entry is the scored form of a document whose title
  score is at least 20 or whose edition count exceeds 50; and every such document is
  represented by an entry with the same normalised title and a score at least as high,
  unless the list is full with 6 entries that all score at least as high as the
  document.
\<close>

theorem rankBooks_ranked:
  "(rankBooks q docs = Inl TypeError \<longleftrightarrow>
      (\<exists>d\<in>set docs. doc.title d = None \<and> 50 < orZero (edition_count d)))
   \<and> (rankBooks q docs = Inr results \<longrightarrow>
        length results \<le> 6
        \<and> sorted_wrt (\<lambda>a b. score b \<le> score a) results
        \<and> distinct (map (\<lambda>r. normalizeTitle (suggestion.title r)) results)
        \<and> (\<forall>r\<in>set results. \<exists>d\<in>set docs. suggestionOf (scoreBook q d) = Some r
              \<and> (20 \<le> titleMatchOf (doc.title d) q \<or> 50 < orZero (edition_count d)))
        \<and> (\<forall>d\<in>set docs.
              20 \<le> titleMatchOf (doc.title d) q \<or> 50 < orZero (edition_count d) \<longrightarrow>
              (\<exists>r\<in>set results.
                  map_option normalizeTitle (doc.title d) = Some (normalizeTitle (suggestion.title r))
                  \<and> scoredBook.score (scoreBook q d) \<le> score r)
              \<or> (length results = 6
                  \<and> (\<forall>r\<in>set results. scoredBook.score (scoreBook q d) \<le> score r))))
   \<and> (c < length (requests s) \<and> inFlight (requests s ! c) \<longrightarrow>
        suggestions (fetchSettles c (Ok (Json docs)) s)
          = (case rankBooks (requestQuery (requests s ! c)) docs of
               Inl e \<Rightarrow> []
             | Inr results \<Rightarrow> results)
        \<and> searchCache (fetchSettles c (Ok (Json docs)) s)
          = (case rankBooks (requestQuery (requests s ! c)) docs of
               Inl e \<Rightarrow> searchCache s
             | Inr results \<Rightarrow> (searchCache s)(requestKey (requests s ! c) \<mapsto> results)))"
proof -
  have throws: "rankBooks q docs = Inl TypeError \<longleftrightarrow>
      (\<exists>d\<in>set docs. doc.title d = None \<and> 50 < orZero (edition_count d))"
  proof
    assume thrown: "rankBooks q docs = Inl TypeError"
    show "\<exists>d\<in>set docs. doc.title d = None \<and> 50 < orZero (edition_count d)"
    proof (rule ccontr)
      assume "\<not> (\<exists>d\<in>set docs. doc.title d = None \<and> 50 < orZero (edition_count d))"
      then have "\<forall>d\<in>set docs. 50 < orZero (edition_count d) \<longrightarrow> doc.title d \<noteq> None"
        by auto
      from rankBooks_returns [OF this, of q] thrown show False
        by auto
    qed
  next
    assume "\<exists>d\<in>set docs. doc.title d = None \<and> 50 < orZero (edition_count d)"
    then obtain d where "d \<in> set docs" "doc.title d = None" "50 < orZero (edition_count d)"
      by blast
    then show "rankBooks q docs = Inl TypeError"
      by (rule rankBooks_throws)
  qed
  have returns: "rankBooks q docs = Inr results \<longrightarrow>
        length results \<le> 6
        \<and> sorted_wrt (\<lambda>a b. score b \<le> score a) results
        \<and> distinct (map (\<lambda>r. normalizeTitle (suggestion.title r)) results)
        \<and> (\<forall>r\<in>set results. \<exists>d\<in>set docs. suggestionOf (scoreBook q d) = Some r
              \<and> (20 \<le> titleMatchOf (doc.title d) q \<or> 50 < orZero (edition_count d)))
        \<and> (\<forall>d\<in>set docs.
              20 \<le> titleMatchOf (doc.title d) q \<or> 50 < orZero (edition_count d) \<longrightarrow>
              (\<exists>r\<in>set results.
                  map_option normalizeTitle (doc.title d) = Some (normalizeTitle (suggestion.title r))
                  \<and> scoredBook.score (scoreBook q d) \<le> score r)
              \<or> (length results = 6
                  \<and> (\<forall>r\<in>set results. scoredBook.score (scoreBook q d) \<le> score r)))"
  proof
    assume "rankBooks q docs = Inr results"
    from rankBooks_Inr [OF this] show "length results \<le> 6
        \<and> sorted_wrt (\<lambda>a b. score b \<le> score a) results
        \<and> distinct (map (\<lambda>r. normalizeTitle (suggestion.title r)) results)
        \<and> (\<forall>r\<in>set results. \<exists>d\<in>set docs. suggestionOf (scoreBook q d) = Some r
              \<and> (20 \<le> titleMatchOf (doc.title d) q \<or> 50 < orZero (edition_count d)))
        \<and> (\<forall>d\<in>set docs.
              20 \<le> titleMatchOf (doc.title d) q \<or> 50 < orZero (edition_count d) \<longrightarrow>
              (\<exists>r\<in>set results.
                  map_option normalizeTitle (doc.title d) = Some (normalizeTitle (suggestion.title r))
                  \<and> scoredBook.score (scoreBook q d) \<le> score r)
              \<or> (length results = 6
                  \<and> (\<forall>r\<in>set results. scoredBook.score (scoreBook q d) \<le> score r)))"
      by (intro conjI)
  qed
  have settles: "c < length (requests s) \<and> inFlight (requests s ! c) \<longrightarrow>
        suggestions (fetchSettles c (Ok (Json docs)) s)
          = (case rankBooks (requestQuery (requests s ! c)) docs of
               Inl e \<Rightarrow> []
             | Inr results \<Rightarrow> results)
        \<and> searchCache (fetchSettles c (Ok (Json docs)) s)
          = (case rankBooks (requestQuery (requests s ! c)) docs of
               Inl e \<Rightarrow> searchCache s
             | Inr results \<Rightarrow> (searchCache s)(requestKey (requests s ! c) \<mapsto> results))"
    by (simp add: fetchSettles_def inFlight_def Let_def split: sum.splits)
  from throws returns settles show ?thesis
    by (intro conjI)
qed

theorem rankBooks_ranked_witness:
  "rankBooks ''super'' [superManDoc, supermanDoc] = Inr [supermanBook, superManBook]
   \<and> sorted_wrt (\<lambda>a b. score b \<le> score a) [supermanBook, superManBook]
   \<and> distinct (map (\<lambda>r. normalizeTitle (suggestion.title r)) [supermanBook, superManBook])
   \<and> suggestionOf (scoreBook ''super'' supermanDoc) = Some supermanBook
   \<and> rankBooks ''super'' [supermanDoc, untitledDoc] = Inl TypeError
   \<and> suggestions (fetchSettles 0 (Ok (Json [superManDoc, supermanDoc]))
         (after [InputChange ''super'', DebounceFires 0] (mount Map.empty)))
       = [supermanBook, superManBook]
   \<and> suggestions (fetchSettles 0 (Ok (Json [supermanDoc, untitledDoc]))
         (after [InputChange ''super'', DebounceFires 0] (mount Map.empty))) = []
   \<and> searchCache (fetchSettles 0 (Ok (Json [supermanDoc, untitledDoc]))
         (after [InputChange ''super'', DebounceFires 0] (mount Map.empty)))
       = searchCache (after [InputChange ''super'', DebounceFires 0] (mount Map.empty))"
proof -
  define s where "s = after [InputChange ''super'', DebounceFires 0] (mount Map.empty)"
  have "map requestQuery (requests (after [InputChange ''super'', DebounceFires 0] (mount Map.empty)))
      = [''super'']"
    and "inFlight (requests (after [InputChange ''super'', DebounceFires 0] (mount Map.empty)) ! 0)"
    by code_simp+
  then have queries: "map requestQuery (requests s) = [''super'']"
    and live: "inFlight (requests s ! 0)"
    by (simp_all add: s_def)
  from queries have c: "0 < length (requests s)" "requestQuery (requests s ! 0) = ''super''"
    by (cases "requests s"; simp)+
  have ranked: "rankBooks ''super'' [superManDoc, supermanDoc] = Inr [supermanBook, superManBook]"
    by (simp add: example_rankBooks)
  have untitled: "\<exists>d\<in>set [supermanDoc, untitledDoc].
      doc.title d = None \<and> 50 < orZero (edition_count d)"
    by (simp add: example_titles orZero_def)
  from rankBooks_ranked [of "''super''" "[supermanDoc, untitledDoc]" "[]" 0 s] untitled c live
  have thrown: "rankBooks ''super'' [supermanDoc, untitledDoc] = Inl TypeError"
    "suggestions (fetchSettles 0 (Ok (Json [supermanDoc, untitledDoc])) s) = []"
    "searchCache (fetchSettles 0 (Ok (Json [supermanDoc, untitledDoc])) s) = searchCache s"
    by simp_all
  from rankBooks_ranked [of "''super''" "[superManDoc, supermanDoc]"
      "[supermanBook, superManBook]" 0 s] ranked c live
  have "sorted_wrt (\<lambda>a b. score b \<le> score a) [supermanBook, superManBook]"
    "distinct (map (\<lambda>r. normalizeTitle (suggestion.title r)) [supermanBook, superManBook])"
    "suggestions (fetchSettles 0 (Ok (Json [superManDoc, supermanDoc])) s)
       = [supermanBook, superManBook]"
    by simp_all
  moreover have "suggestionOf (scoreBook ''super'' supermanDoc) = Some supermanBook"
    by (simp add: example_scoreBook suggestionOf_def supermanBook_def)
  ultimately show ?thesis
    using ranked thrown unfolding s_def by simp
qed

subsection \<open>What every reachable state satisfies\<close>

definition singleFlight :: "autocomplete \<Rightarrow> bool" where
  \<comment> \<open>a request in flight is the one of the current controller, and its key is not in
      the cache\<close>
  "singleFlight s \<longleftrightarrow>
     (\<forall>c<length (requests s). inFlight (requests s ! c) \<longrightarrow>
        abortControllerRef s = Some c \<and> searchCache s (requestKey (requests s ! c)) = None)"

definition singleTimer :: "autocomplete \<Rightarrow> bool" where
  \<comment> \<open>a pending timeout is the one of the debounce ref\<close>
  "singleTimer s \<longleftrightarrow>
     (\<forall>t<length (timers s). status (timers s ! t) = Pending \<longrightarrow> debounceTimerRef s = Some t)"

definition longQueries :: "autocomplete \<Rightarrow> bool" where
  \<comment> \<open>every timeout set and every request made is for two characters at least\<close>
  "longQueries s \<longleftrightarrow>
     (\<forall>t\<in>set (timers s). 2 \<le> length (trim (timerValue t)) \<and> delay t = 200)
     \<and> (\<forall>r\<in>set (requests s). 2 \<le> length (requestQuery r)
            \<and> requestKey r = toLowerCase (requestQuery r))"

definition prefixShown :: "autocomplete \<Rightarrow> bool" where
  "prefixShown s \<longleftrightarrow>
     displayPlaceholder s = take (length (displayPlaceholder s)) TYPEWRITER_TEXT"

lemma singleFlight_cong:
  assumes "singleFlight s" "requests s' = requests s"
    "abortControllerRef s' = abortControllerRef s" "searchCache s' = searchCache s"
  shows "singleFlight s'"
  using assms by (simp add: singleFlight_def)

lemma singleTimer_cong:
  assumes "singleTimer s" "timers s' = timers s" "debounceTimerRef s' = debounceTimerRef s"
  shows "singleTimer s'"
  using assms by (simp add: singleTimer_def)

lemma longQueries_cong:
  assumes "longQueries s" "timers s' = timers s" "requests s' = requests s"
  shows "longQueries s'"
  using assms by (simp add: longQueries_def)

lemma prefixShown_cong:
  assumes "prefixShown s" "displayPlaceholder s' = displayPlaceholder s"
  shows "prefixShown s'"
  using assms by (simp add: prefixShown_def)

text \<open>What \<open>abort\<close> and \<open>clearTimeout\<close> leave as it is.\<close>

lemma abort_fields [simp]:
  "abortControllerRef (abort c s) = abortControllerRef s"
  "debounceTimerRef (abort c s) = debounceTimerRef s"
  "searchCache (abort c s) = searchCache s"
  "timers (abort c s) = timers s"
  "displayPlaceholder (abort c s) = displayPlaceholder s"
  "length (requests (abort c s)) = length (requests s)"
  by (simp_all add: abort_def)

lemma clearTimeout_fields [simp]:
  "abortControllerRef (clearTimeout t s) = abortControllerRef s"
  "debounceTimerRef (clearTimeout t s) = debounceTimerRef s"
  "searchCache (clearTimeout t s) = searchCache s"
  "requests (clearTimeout t s) = requests s"
  "displayPlaceholder (clearTimeout t s) = displayPlaceholder s"
  "length (timers (clearTimeout t s)) = length (timers s)"
  by (simp_all add: clearTimeout_def)

lemma abort_nth:
  "i < length (requests s) \<Longrightarrow>
     requests (abort c s) ! i
       = (if i = c then (requests s ! i)\<lparr> aborted := True \<rparr> else requests s ! i)"
  by (simp add: abort_def nth_list_update)

lemma clearTimeout_nth:
  "i < length (timers s) \<Longrightarrow>
     timers (clearTimeout t s) ! i
       = (if i = t \<and> status (timers s ! t) = Pending
          then (timers s ! i)\<lparr> status := Cleared \<rparr> else timers s ! i)"
  by (simp add: clearTimeout_def nth_list_update)

lemma inFlight_abort:
  assumes "i < length (requests s)" "inFlight (requests (abort c s) ! i)"
  shows "inFlight (requests s ! i)" "i \<noteq> c"
  using assms by (auto simp: abort_nth inFlight_def split: if_splits)

lemma singleFlight_abort:
  assumes "singleFlight s"
  shows "singleFlight (abort c s)"
  unfolding singleFlight_def
proof (intro allI impI)
  fix i
  assume i: "i < length (requests (abort c s))" and live: "inFlight (requests (abort c s) ! i)"
  then have "inFlight (requests s ! i)" "i \<noteq> c" "i < length (requests s)"
    using inFlight_abort [of i s c] by simp_all
  moreover from this have "requests (abort c s) ! i = requests s ! i"
    by (simp add: abort_nth)
  ultimately show "abortControllerRef (abort c s) = Some i
      \<and> searchCache (abort c s) (requestKey (requests (abort c s) ! i)) = None"
    using assms by (simp add: singleFlight_def)
qed

text \<open>After the current controller has aborted, no request is in flight.\<close>

definition abortCurrent :: "autocomplete \<Rightarrow> autocomplete" where
  "abortCurrent s = (case abortControllerRef s of None \<Rightarrow> s | Some c \<Rightarrow> abort c s)"

lemma abortCurrent_fields [simp]:
  "abortControllerRef (abortCurrent s) = abortControllerRef s"
  "debounceTimerRef (abortCurrent s) = debounceTimerRef s"
  "searchCache (abortCurrent s) = searchCache s"
  "timers (abortCurrent s) = timers s"
  "displayPlaceholder (abortCurrent s) = displayPlaceholder s"
  "length (requests (abortCurrent s)) = length (requests s)"
  by (simp_all add: abortCurrent_def split: option.splits)

lemma abortCurrent_none_inFlight:
  assumes "singleFlight s" "i < length (requests s)"
  shows "\<not> inFlight (requests (abortCurrent s) ! i)"
proof (cases "abortControllerRef s")
  case None
  with assms show ?thesis
    by (auto simp: abortCurrent_def singleFlight_def)
next
  case (Some c)
  show ?thesis
  proof
    assume "inFlight (requests (abortCurrent s) ! i)"
    then have "inFlight (requests (abort c s) ! i)"
      using Some by (simp add: abortCurrent_def)
    from inFlight_abort [OF assms(2) this] assms Some show False
      by (auto simp: singleFlight_def)
  qed
qed

lemma fetchBooks_hit:
  "searchCache s (toLowerCase (trim q)) = Some hit \<Longrightarrow>
     fetchBooks q s = s\<lparr> suggestions := hit, isLoading := False, isOpen := True \<rparr>"
  by (simp add: fetchBooks_def)

lemma fetchBooks_miss:
  "searchCache s (toLowerCase (trim q)) = None \<Longrightarrow>
     fetchBooks q s =
       (abortCurrent s)\<lparr> abortControllerRef := Some (length (requests s)),
         requests := requests (abortCurrent s) @
           [\<lparr> requestQuery = trim q, requestKey = toLowerCase (trim q),
              aborted = False, settled = False \<rparr>] \<rparr>"
  by (simp add: fetchBooks_def abortCurrent_def Let_def split: option.splits)

lemma singleFlight_fetchBooks:
  assumes "singleFlight s"
  shows "singleFlight (fetchBooks q s)"
proof (cases "searchCache s (toLowerCase (trim q))")
  case (Some hit)
  from assms show ?thesis
    unfolding fetchBooks_hit [OF Some] by (rule singleFlight_cong) simp_all
next
  case None
  show ?thesis
    unfolding fetchBooks_miss [OF None] singleFlight_def
    using abortCurrent_none_inFlight [OF assms] None
    by (auto simp: nth_append less_Suc_eq)
qed

lemma singleFlight_fetchSettles:
  assumes "singleFlight s"
  shows "singleFlight (fetchSettles c r s)"
proof (cases "c < length (requests s) \<and> \<not> settled (requests s ! c)")
  case False
  with assms show ?thesis
    by (auto simp: fetchSettles_def)
next
  case True
  define s1 where "s1 = s\<lparr> requests := (requests s)[c := (requests s ! c)\<lparr> settled := True \<rparr>] \<rparr>"
  have old: "inFlight (requests s ! i) \<and> i \<noteq> c"
    if "i < length (requests s)" "inFlight (requests s1 ! i)" for i
    using that True by (auto simp: s1_def nth_list_update inFlight_def split: if_splits)
  have same: "requestKey (requests s1 ! i) = requestKey (requests s ! i)"
    if "i < length (requests s)" for i
    using that True by (simp add: s1_def nth_list_update)
  have len: "length (requests s1) = length (requests s)"
    "abortControllerRef s1 = abortControllerRef s" "searchCache s1 = searchCache s"
    by (simp_all add: s1_def)
  have s1: "singleFlight s1"
    unfolding singleFlight_def len
  proof (intro allI impI)
    fix i
    assume "i < length (requests s)" "inFlight (requests s1 ! i)"
    with old [of i] same [of i] assms
    show "abortControllerRef s = Some i \<and> searchCache s (requestKey (requests s1 ! i)) = None"
      by (simp add: singleFlight_def)
  qed
  show ?thesis
  proof (cases "aborted (requests s ! c)")
    case aborted: True
    have "fetchSettles c r s = s1\<lparr> isLoading := False \<rparr>"
      using True aborted by (simp add: fetchSettles_def s1_def Let_def)
    with s1 show ?thesis
      by (simp add: singleFlight_cong)
  next
    case live: False
    then have "inFlight (requests s ! c)"
      using True by (simp add: inFlight_def)
    with assms True have ref: "abortControllerRef s = Some c"
      by (simp add: singleFlight_def)
    have none: "\<not> inFlight (requests s1 ! i)" if "i < length (requests s)" for i
    proof
      assume "inFlight (requests s1 ! i)"
      from old [OF that this] assms that ref show False
        by (auto simp: singleFlight_def)
    qed
    show ?thesis
    proof (cases "\<exists>docs results. r = Ok (Json docs)
        \<and> rankBooks (requestQuery (requests s ! c)) docs = Inr results")
      case True
      then obtain docs results where r: "r = Ok (Json docs)"
        "rankBooks (requestQuery (requests s ! c)) docs = Inr results"
        by blast
      have "fetchSettles c r s
          = s1\<lparr> searchCache := (searchCache s1)(requestKey (requests s ! c) \<mapsto> results),
               suggestions := results, isOpen := True, isLoading := False \<rparr>"
        using \<open>c < length (requests s) \<and> \<not> settled (requests s ! c)\<close> live r
        by (simp add: fetchSettles_def s1_def Let_def)
      then show ?thesis
        using none by (simp add: singleFlight_def s1_def)
    next
      case False
      then have "fetchSettles c r s = s1\<lparr> suggestions := [], isLoading := False \<rparr>"
        using \<open>c < length (requests s) \<and> \<not> settled (requests s ! c)\<close> live
        by (auto simp: fetchSettles_def s1_def Let_def split: reply.splits body.splits sum.splits)
      with s1 show ?thesis
        by (simp add: singleFlight_cong)
    qed
  qed
qed


lemma singleFlight_handle:
  assumes "singleFlight s"
  shows "singleFlight (snd (handle onSelect e s))"
proof (cases e)
  case (InputChange v)
  have "singleFlight (handleInputChange v s)"
    using assms
    by (rule singleFlight_cong) (simp_all add: handleInputChange_def Let_def split: option.splits)
  with InputChange show ?thesis by (simp add: handle_def)
next
  case Focus
  with assms show ?thesis by (simp add: handle_def onFocus_def Let_def singleFlight_def)
next
  case Blur
  with assms show ?thesis by (simp add: handle_def singleFlight_def)
next
  case (KeyDown k)
  with assms show ?thesis
    by (cases k) (simp_all add: handle_def handleKeyDown_def selectSuggestion_def singleFlight_def)
next
  case (Click i)
  with assms show ?thesis by (simp add: handle_def selectSuggestion_def singleFlight_def)
next
  case (MouseEnter i)
  with assms show ?thesis by (simp add: handle_def singleFlight_def)
next
  case ClickOutside
  with assms show ?thesis by (simp add: handle_def singleFlight_def)
next
  case (DebounceFires t)
  have "singleFlight (s\<lparr> timers := ts \<rparr>)" for ts
    using assms by (simp add: singleFlight_def)
  then show ?thesis
    using assms DebounceFires by (simp add: handle_def debounceFires_def singleFlight_fetchBooks)
next
  case (FetchSettles c r)
  with assms show ?thesis by (simp add: handle_def singleFlight_fetchSettles)
next
  case TypewriterFires
  with assms show ?thesis by (simp add: handle_def typewriterFires_def singleFlight_def)
next
  case Unmount
  have "singleFlight (case debounceTimerRef s of None \<Rightarrow> s | Some t \<Rightarrow> clearTimeout t s)"
    using assms by (rule singleFlight_cong) (simp_all split: option.splits)
  then have "singleFlight (unmount s)"
    by (simp add: unmount_def Let_def singleFlight_abort split: option.splits)
  with Unmount show ?thesis by (simp add: handle_def)
qed

lemma pending_clearTimeout:
  assumes "i < length (timers s)" "status (timers (clearTimeout t s) ! i) = Pending"
  shows "status (timers s ! i) = Pending" "i \<noteq> t"
  using assms by (auto simp: clearTimeout_nth split: if_splits)

lemma singleTimer_clearTimeout: "singleTimer s \<Longrightarrow> singleTimer (clearTimeout t s)"
  unfolding singleTimer_def by (auto dest: pending_clearTimeout)

definition clearCurrent :: "autocomplete \<Rightarrow> autocomplete" where
  "clearCurrent s = (case debounceTimerRef s of None \<Rightarrow> s | Some t \<Rightarrow> clearTimeout t s)"

lemma clearCurrent_fields [simp]:
  "abortControllerRef (clearCurrent s) = abortControllerRef s"
  "debounceTimerRef (clearCurrent s) = debounceTimerRef s"
  "searchCache (clearCurrent s) = searchCache s"
  "requests (clearCurrent s) = requests s"
  "displayPlaceholder (clearCurrent s) = displayPlaceholder s"
  "length (timers (clearCurrent s)) = length (timers s)"
  by (simp_all add: clearCurrent_def split: option.splits)

lemma clearCurrent_none_pending:
  assumes "singleTimer s" "i < length (timers s)"
  shows "status (timers (clearCurrent s) ! i) \<noteq> Pending"
proof (cases "debounceTimerRef s")
  case None
  with assms show ?thesis
    by (auto simp: clearCurrent_def singleTimer_def)
next
  case (Some t)
  show ?thesis
  proof
    assume "status (timers (clearCurrent s) ! i) = Pending"
    then have "status (timers (clearTimeout t s) ! i) = Pending"
      using Some by (simp add: clearCurrent_def)
    from pending_clearTimeout [OF assms(2) this] assms Some show False
      by (auto simp: singleTimer_def)
  qed
qed

lemma handleInputChange_short:
  "length (trim v) < 2 \<Longrightarrow>
     handleInputChange v s
       = (clearCurrent (s\<lparr> query := v, activeIndex := - 1 \<rparr>))
           \<lparr> suggestions := [], isOpen := False, isLoading := False \<rparr>"
  by (simp add: handleInputChange_def clearCurrent_def Let_def)

lemma handleInputChange_long:
  "2 \<le> length (trim v) \<Longrightarrow>
     handleInputChange v s
       = (clearCurrent (s\<lparr> query := v, activeIndex := - 1 \<rparr>))
           \<lparr> isLoading := True,
             debounceTimerRef := Some (length (timers s)),
             timers := timers (clearCurrent (s\<lparr> query := v, activeIndex := - 1 \<rparr>))
               @ [\<lparr> timerValue = v, delay = 200, status = Pending \<rparr>] \<rparr>"
  by (simp add: handleInputChange_def clearCurrent_def Let_def split: option.splits)

lemma singleTimer_handleInputChange:
  assumes "singleTimer s"
  shows "singleTimer (handleInputChange v s)"
proof -
  have s1: "singleTimer (s\<lparr> query := v, activeIndex := - 1 \<rparr>)"
    using assms by (simp add: singleTimer_def)
  show ?thesis
  proof (cases "length (trim v) < 2")
    case True
    show ?thesis
      unfolding handleInputChange_short [OF True] singleTimer_def
      using clearCurrent_none_pending [OF s1] by simp
  next
    case False
    then have long: "2 \<le> length (trim v)"
      by simp
    show ?thesis
      unfolding handleInputChange_long [OF long] singleTimer_def
      using clearCurrent_none_pending [OF s1] by (auto simp: nth_append less_Suc_eq)
  qed
qed

lemma singleTimer_handle:
  assumes "singleTimer s"
  shows "singleTimer (snd (handle onSelect e s))"
proof (cases e)
  case (InputChange v)
  with assms show ?thesis by (simp add: handle_def singleTimer_handleInputChange)
next
  case Focus
  with assms show ?thesis by (simp add: handle_def onFocus_def Let_def singleTimer_def)
next
  case Blur
  with assms show ?thesis by (simp add: handle_def singleTimer_def)
next
  case (KeyDown k)
  with assms show ?thesis
    by (cases k) (simp_all add: handle_def handleKeyDown_def selectSuggestion_def singleTimer_def)
next
  case (Click i)
  with assms show ?thesis by (simp add: handle_def selectSuggestion_def singleTimer_def)
next
  case (MouseEnter i)
  with assms show ?thesis by (simp add: handle_def singleTimer_def)
next
  case ClickOutside
  with assms show ?thesis by (simp add: handle_def singleTimer_def)
next
  case (DebounceFires t)
  show ?thesis
  proof (cases "t < length (timers s) \<and> status (timers s ! t) = Pending")
    case False
    with assms DebounceFires show ?thesis
      by (auto simp: handle_def debounceFires_def)
  next
    case True
    define s1 where "s1 = s\<lparr> timers := (timers s)[t := (timers s ! t)\<lparr> status := Fired \<rparr>] \<rparr>"
    have "singleTimer s1"
      using assms True by (auto simp: singleTimer_def s1_def nth_list_update split: if_splits)
    moreover have "timers (fetchBooks q s1) = timers s1"
      "debounceTimerRef (fetchBooks q s1) = debounceTimerRef s1" for q
      by (simp_all add: fetchBooks_def abortCurrent_def [symmetric] Let_def split: option.splits)
    ultimately have "singleTimer (fetchBooks q s1)" for q
      by (simp add: singleTimer_def)
    with True DebounceFires show ?thesis
      by (simp add: handle_def debounceFires_def s1_def)
  qed
next
  case (FetchSettles c r)
  have "timers (fetchSettles c r s) = timers s"
    "debounceTimerRef (fetchSettles c r s) = debounceTimerRef s"
    by (simp_all add: fetchSettles_def Let_def split: reply.splits body.splits sum.splits)
  with assms FetchSettles show ?thesis
    by (simp add: handle_def singleTimer_def)
next
  case TypewriterFires
  with assms show ?thesis by (simp add: handle_def typewriterFires_def singleTimer_def)
next
  case Unmount
  have "singleTimer (clearCurrent s)"
    using assms by (simp add: clearCurrent_def singleTimer_clearTimeout split: option.splits)
  then have "singleTimer (unmount s)"
    by (simp add: unmount_def clearCurrent_def [symmetric] abortCurrent_def [symmetric]
        singleTimer_def)
  with Unmount show ?thesis by (simp add: handle_def)
qed


lemma in_set_updateD:
  assumes "x \<in> set (xs[i := y])"
  shows "x \<in> set xs \<or> x = y \<and> i < length xs"
proof (cases "i < length xs")
  case True
  with assms set_update_subset_insert [of xs i y] show ?thesis
    by auto
next
  case False
  then have "xs[i := y] = xs"
    by (intro list_update_beyond) simp
  with assms show ?thesis
    by simp
qed

lemma longQueries_abort: "longQueries s \<Longrightarrow> longQueries (abort c s)"
  unfolding longQueries_def abort_def by (auto dest!: in_set_updateD)

lemma longQueries_clearTimeout: "longQueries s \<Longrightarrow> longQueries (clearTimeout t s)"
  unfolding longQueries_def clearTimeout_def by (auto dest!: in_set_updateD)

lemma longQueries_abortCurrent: "longQueries s \<Longrightarrow> longQueries (abortCurrent s)"
  by (simp add: abortCurrent_def longQueries_abort split: option.splits)

lemma longQueries_clearCurrent: "longQueries s \<Longrightarrow> longQueries (clearCurrent s)"
  by (simp add: clearCurrent_def longQueries_clearTimeout split: option.splits)

lemma longQueries_fetchBooks:
  assumes "longQueries s" "2 \<le> length (trim q)"
  shows "longQueries (fetchBooks q s)"
proof (cases "searchCache s (toLowerCase (trim q))")
  case (Some hit)
  from assms(1) show ?thesis
    unfolding fetchBooks_hit [OF Some] by (rule longQueries_cong) simp_all
next
  case None
  show ?thesis
    unfolding fetchBooks_miss [OF None]
    using longQueries_abortCurrent [OF assms(1)] assms(2)
    by (simp add: longQueries_def)
qed

lemma longQueries_fetchSettles:
  assumes "longQueries s"
  shows "longQueries (fetchSettles c r s)"
proof (cases "c < length (requests s) \<and> \<not> settled (requests s ! c)")
  case False
  with assms show ?thesis
    by (auto simp: fetchSettles_def)
next
  case True
  define s1 where "s1 = s\<lparr> requests := (requests s)[c := (requests s ! c)\<lparr> settled := True \<rparr>] \<rparr>"
  have "longQueries s1"
    using assms True unfolding longQueries_def s1_def by (auto dest!: in_set_updateD)
  moreover have "timers (fetchSettles c r s) = timers s1"
    "requests (fetchSettles c r s) = requests s1"
    using True by (simp_all add: fetchSettles_def s1_def Let_def split: reply.splits body.splits sum.splits)
  ultimately show ?thesis
    by (rule longQueries_cong)
qed

lemma longQueries_handle:
  assumes "longQueries s"
  shows "longQueries (snd (handle onSelect e s))"
proof (cases e)
  case (InputChange v)
  have s1: "longQueries (clearCurrent (s\<lparr> query := v, activeIndex := - 1 \<rparr>))"
    using assms by (intro longQueries_clearCurrent) (simp add: longQueries_def)
  have "longQueries (handleInputChange v s)"
  proof (cases "length (trim v) < 2")
    case True
    show ?thesis
      unfolding handleInputChange_short [OF True] using s1 by (simp add: longQueries_def)
  next
    case False
    then have long: "2 \<le> length (trim v)"
      by simp
    show ?thesis
      unfolding handleInputChange_long [OF long] using s1 long by (simp add: longQueries_def)
  qed
  with InputChange show ?thesis by (simp add: handle_def)
next
  case Focus
  with assms show ?thesis by (simp add: handle_def onFocus_def Let_def longQueries_def)
next
  case Blur
  with assms show ?thesis by (simp add: handle_def longQueries_def)
next
  case (KeyDown k)
  with assms show ?thesis
    by (cases k) (simp_all add: handle_def handleKeyDown_def selectSuggestion_def longQueries_def)
next
  case (Click i)
  with assms show ?thesis by (simp add: handle_def selectSuggestion_def longQueries_def)
next
  case (MouseEnter i)
  with assms show ?thesis by (simp add: handle_def longQueries_def)
next
  case ClickOutside
  with assms show ?thesis by (simp add: handle_def longQueries_def)
next
  case (DebounceFires t)
  show ?thesis
  proof (cases "t < length (timers s) \<and> status (timers s ! t) = Pending")
    case False
    with assms DebounceFires show ?thesis
      by (auto simp: handle_def debounceFires_def)
  next
    case True
    define s1 where "s1 = s\<lparr> timers := (timers s)[t := (timers s ! t)\<lparr> status := Fired \<rparr>] \<rparr>"
    have "timers s ! t \<in> set (timers s)"
      using True by simp
    with assms have long: "2 \<le> length (trim (timerValue (timers s ! t)))" "delay (timers s ! t) = 200"
      by (simp_all add: longQueries_def)
    have "longQueries s1"
      using assms long unfolding longQueries_def s1_def by (auto dest!: in_set_updateD)
    then have "longQueries (fetchBooks (timerValue (timers s ! t)) s1)"
      using long(1) by (rule longQueries_fetchBooks)
    with True DebounceFires show ?thesis
      by (simp add: handle_def debounceFires_def s1_def)
  qed
next
  case (FetchSettles c r)
  with assms show ?thesis by (simp add: handle_def longQueries_fetchSettles)
next
  case TypewriterFires
  with assms show ?thesis by (simp add: handle_def typewriterFires_def longQueries_def)
next
  case Unmount
  have "longQueries (unmount s)"
    using assms
    by (simp add: unmount_def clearCurrent_def [symmetric] abortCurrent_def [symmetric]
        longQueries_abortCurrent longQueries_clearCurrent)
  with Unmount show ?thesis by (simp add: handle_def)
qed

lemma prefixShown_length:
  assumes "prefixShown s"
  shows "length (displayPlaceholder s) \<le> length TYPEWRITER_TEXT"
proof -
  have "length (displayPlaceholder s)
      = length (take (length (displayPlaceholder s)) TYPEWRITER_TEXT)"
    using assms unfolding prefixShown_def by (rule arg_cong)
  then show ?thesis
    by (simp add: min_def split: if_splits)
qed

lemma prefixShown_typewriterFires:
  assumes "prefixShown s"
  shows "prefixShown (typewriterFires s)"
proof -
  have grow: "take (length (take n TYPEWRITER_TEXT)) TYPEWRITER_TEXT
      = take n TYPEWRITER_TEXT" for n
    by (simp add: min_def)
  have "butlast (displayPlaceholder s)
      = butlast (take (length (displayPlaceholder s)) TYPEWRITER_TEXT)"
    using assms unfolding prefixShown_def by (rule arg_cong)
  also have "\<dots> = take (length (displayPlaceholder s) - 1) TYPEWRITER_TEXT"
    using prefixShown_length [OF assms] by (simp add: butlast_take)
  finally have shrink: "butlast (displayPlaceholder s)
      = take (length (displayPlaceholder s) - 1) TYPEWRITER_TEXT" .
  have "displayPlaceholder (typewriterFires s) = displayPlaceholder s
      \<or> displayPlaceholder (typewriterFires s)
        = take (length (displayPlaceholder s) + 1) TYPEWRITER_TEXT
      \<or> displayPlaceholder (typewriterFires s) = butlast (displayPlaceholder s)"
    by (simp add: typewriterFires_def)
  then consider (same) "displayPlaceholder (typewriterFires s) = displayPlaceholder s"
    | (grown) "displayPlaceholder (typewriterFires s)
        = take (length (displayPlaceholder s) + 1) TYPEWRITER_TEXT"
    | (shrunk) "displayPlaceholder (typewriterFires s) = butlast (displayPlaceholder s)"
    by blast
  then show ?thesis
  proof cases
    case same
    with assms show ?thesis
      by (rule prefixShown_cong)
  next
    case grown
    show ?thesis
      unfolding prefixShown_def grown by (simp only: grow)
  next
    case shrunk
    show ?thesis
      unfolding prefixShown_def shrunk shrink by (simp only: grow)
  qed
qed

lemma prefixShown_handle:
  assumes "prefixShown s"
  shows "prefixShown (snd (handle onSelect e s))"
proof (cases e)
  case (InputChange v)
  have "prefixShown (handleInputChange v s)"
    using assms
    by (rule prefixShown_cong)
      (simp add: handleInputChange_def clearCurrent_def [symmetric] Let_def)
  with InputChange show ?thesis by (simp add: handle_def)
next
  case Focus
  with assms show ?thesis by (simp add: handle_def onFocus_def Let_def prefixShown_def)
next
  case Blur
  with assms show ?thesis by (simp add: handle_def prefixShown_def)
next
  case (KeyDown k)
  with assms show ?thesis
    by (cases k) (simp_all add: handle_def handleKeyDown_def selectSuggestion_def prefixShown_def)
next
  case (Click i)
  with assms show ?thesis by (simp add: handle_def selectSuggestion_def prefixShown_def)
next
  case (MouseEnter i)
  with assms show ?thesis by (simp add: handle_def prefixShown_def)
next
  case ClickOutside
  with assms show ?thesis by (simp add: handle_def prefixShown_def)
next
  case (DebounceFires t)
  have "displayPlaceholder (fetchBooks q s1) = displayPlaceholder s1" for q s1
    by (simp add: fetchBooks_def abortCurrent_def [symmetric] Let_def split: option.splits)
  with assms DebounceFires show ?thesis
    by (simp add: handle_def debounceFires_def prefixShown_def)
next
  case (FetchSettles c r)
  have "displayPlaceholder (fetchSettles c r s) = displayPlaceholder s"
    by (simp add: fetchSettles_def Let_def split: reply.splits body.splits sum.splits)
  with assms FetchSettles show ?thesis
    by (simp add: handle_def prefixShown_def)
next
  case TypewriterFires
  with assms show ?thesis by (simp add: handle_def prefixShown_typewriterFires)
next
  case Unmount
  have "displayPlaceholder (unmount s) = displayPlaceholder s"
    by (simp add: unmount_def clearCurrent_def [symmetric] abortCurrent_def [symmetric])
  with assms Unmount show ?thesis
    by (simp add: handle_def prefixShown_def)
qed

text \<open>The four properties together, and the runs of the component.\<close>

definition invariants :: "autocomplete \<Rightarrow> bool" where
  "invariants s \<longleftrightarrow> singleFlight s \<and> singleTimer s \<and> longQueries s \<and> prefixShown s"

lemma invariants_mount: "invariants (mount cache)"
  by (simp add: invariants_def mount_def singleFlight_def singleTimer_def longQueries_def
      prefixShown_def)

lemma invariants_handle: "invariants s \<Longrightarrow> invariants (snd (handle onSelect e s))"
  by (simp add: invariants_def singleFlight_handle singleTimer_handle longQueries_handle
      prefixShown_handle)

lemma invariants_run: "invariants s \<Longrightarrow> invariants (snd (run onSelect es s))"
proof (induction es arbitrary: s)
  case Nil
  then show ?case by simp
next
  case (Cons e es)
  from Cons.IH [OF invariants_handle [OF Cons.prems, of onSelect e]] show ?case
    by (simp add: split_def Let_def)
qed

lemma invariants_after: "invariants s \<Longrightarrow> invariants (after es s)"
  by (simp add: after_def invariants_run)


subsection \<open>One request in flight\<close>

lemma filter_at_one_index:
  assumes "\<forall>i<length xs. P (xs ! i) \<longrightarrow> r = Some i"
  shows "length (filter P xs) \<le> 1"
proof -
  have "{i. i < length xs \<and> P (xs ! i)} \<subseteq> (case r of None \<Rightarrow> {} | Some c \<Rightarrow> {c})"
    using assms by (auto split: option.splits)
  moreover have "finite (case r of None \<Rightarrow> {} | Some c \<Rightarrow> {c})"
    "card (case r of None \<Rightarrow> {} | Some c \<Rightarrow> {c}) \<le> 1"
    by (simp_all split: option.splits)
  ultimately have "card {i. i < length xs \<and> P (xs ! i)} \<le> 1"
    using card_mono [of "case r of None \<Rightarrow> {} | Some c \<Rightarrow> {c}"
        "{i. i < length xs \<and> P (xs ! i)}"]
    by linarith
  then show ?thesis
    by (simp add: length_filter_conv_card)
qed

lemma singleFlight_at_most_one:
  "singleFlight s \<Longrightarrow> length (filter inFlight (requests s)) \<le> 1"
  by (rule filter_at_one_index [of _ _ "abortControllerRef s"]) (simp add: singleFlight_def)

lemma singleTimer_at_most_one:
  "singleTimer s \<Longrightarrow> length (filter (\<lambda>t. status t = Pending) (timers s)) \<le> 1"
  by (rule filter_at_one_index [of _ _ "debounceTimerRef s"]) (simp add: singleTimer_def)

lemma abortCurrent_nth:
  "c < length (requests s) \<Longrightarrow>
     requests (abortCurrent s) ! c
       = (if abortControllerRef s = Some c then (requests s ! c)\<lparr> aborted := True \<rparr>
          else requests s ! c)"
  by (auto simp: abortCurrent_def abort_nth split: option.splits)

text \<open>
  Claim C5. After any events of the component at most one request is in flight. When
  \<open>fetchBooks\<close> goes past the cache, no request made before is in flight afterwards: the
  one of the current controller has been aborted, the others stay as they were; and the
  new request, the only one in flight, is the one of the new controller.
\<close>

theorem fetchBooks_single_flight:
  "length (filter inFlight (requests (after es (mount cache)))) \<le> 1
   \<and> (searchCache (after es (mount cache)) (toLowerCase (trim q)) = None \<longrightarrow>
        length (requests (fetchBooks q (after es (mount cache))))
          = Suc (length (requests (after es (mount cache))))
        \<and> (\<forall>c<length (requests (after es (mount cache))).
              \<not> inFlight (requests (fetchBooks q (after es (mount cache))) ! c)
              \<and> requests (fetchBooks q (after es (mount cache))) ! c
                = (if abortControllerRef (after es (mount cache)) = Some c
                   then (requests (after es (mount cache)) ! c)\<lparr> aborted := True \<rparr>
                   else requests (after es (mount cache)) ! c))
        \<and> requests (fetchBooks q (after es (mount cache)))
              ! length (requests (after es (mount cache)))
            = \<lparr> requestQuery = trim q, requestKey = toLowerCase (trim q),
                aborted = False, settled = False \<rparr>
        \<and> abortControllerRef (fetchBooks q (after es (mount cache)))
            = Some (length (requests (after es (mount cache))))
        \<and> length (filter inFlight (requests (fetchBooks q (after es (mount cache))))) = 1)"
proof -
  define s where "s = after es (mount cache)"
  have inv: "invariants s"
    unfolding s_def by (intro invariants_after invariants_mount)
  then have flight: "singleFlight s"
    by (simp add: invariants_def)
  have one: "length (filter inFlight (requests s)) \<le> 1"
    using flight by (rule singleFlight_at_most_one)
  have miss: "length (requests (fetchBooks q s)) = Suc (length (requests s))
        \<and> (\<forall>c<length (requests s).
              \<not> inFlight (requests (fetchBooks q s) ! c)
              \<and> requests (fetchBooks q s) ! c
                = (if abortControllerRef s = Some c
                   then (requests s ! c)\<lparr> aborted := True \<rparr> else requests s ! c))
        \<and> requests (fetchBooks q s) ! length (requests s)
            = \<lparr> requestQuery = trim q, requestKey = toLowerCase (trim q),
                aborted = False, settled = False \<rparr>
        \<and> abortControllerRef (fetchBooks q s) = Some (length (requests s))
        \<and> length (filter inFlight (requests (fetchBooks q s))) = 1"
    if none: "searchCache s (toLowerCase (trim q)) = None"
  proof -
    have old: "\<not> inFlight (requests (abortCurrent s) ! c)" if "c < length (requests s)" for c
      using flight that by (rule abortCurrent_none_inFlight)
    have "filter inFlight (requests (abortCurrent s)) = []"
      using old by (auto simp: filter_empty_conv in_set_conv_nth)
    then have "length (filter inFlight (requests (fetchBooks q s))) = 1"
      by (simp add: fetchBooks_miss [OF none] inFlight_def)
    then show ?thesis
      using old by (simp add: fetchBooks_miss [OF none] nth_append abortCurrent_nth)
  qed
  from one miss show ?thesis
    unfolding s_def by blast
qed

theorem fetchBooks_single_flight_witness:
  "searchCache (after [InputChange ''su'', DebounceFires 0, InputChange ''sup''] (mount Map.empty))
       (toLowerCase (trim ''sup'')) = None
   \<and> map aborted (requests
         (after [InputChange ''su'', DebounceFires 0, InputChange ''sup''] (mount Map.empty)))
       = [False]
   \<and> length (filter inFlight (requests (fetchBooks ''sup''
         (after [InputChange ''su'', DebounceFires 0, InputChange ''sup''] (mount Map.empty)))))
       = 1
   \<and> \<not> inFlight (requests (fetchBooks ''sup''
         (after [InputChange ''su'', DebounceFires 0, InputChange ''sup''] (mount Map.empty))) ! 0)"
proof -
  have miss: "searchCache
       (after [InputChange ''su'', DebounceFires 0, InputChange ''sup''] (mount Map.empty))
       (toLowerCase (trim ''sup'')) = None"
    by code_simp
  have before: "map aborted (requests
         (after [InputChange ''su'', DebounceFires 0, InputChange ''sup''] (mount Map.empty)))
       = [False]"
    by code_simp
  then have "0 < length (requests
         (after [InputChange ''su'', DebounceFires 0, InputChange ''sup''] (mount Map.empty)))"
    by (cases "requests
         (after [InputChange ''su'', DebounceFires 0, InputChange ''sup''] (mount Map.empty))")
      simp_all
  with fetchBooks_single_flight
    [of "[InputChange ''su'', DebounceFires 0, InputChange ''sup'']" Map.empty "''sup''"]
    miss before
  show ?thesis
    by blast
qed

subsection \<open>Debouncing\<close>

lemma clearCurrent_timers_nth:
  "t < length (timers s) \<Longrightarrow>
     timers (clearCurrent s) ! t
       = (if debounceTimerRef s = Some t \<and> status (timers s ! t) = Pending
          then (timers s ! t)\<lparr> status := Cleared \<rparr> else timers s ! t)"
  by (auto simp: clearCurrent_def clearTimeout_nth split: option.splits)

text \<open>
  Claim C6. After any events of the component at most one debounce timeout is pending.
  \<open>handleInputChange\<close> leaves none of the timeouts set before pending. For a value whose
  trimmed length is below 2 it clears the suggestions, closes the list, stops loading and
  sets no timeout; for any other value it sets one timeout, of 200 ms, for the value.
  Every timeout ever set is for a value of trimmed length 2 at least, a timeout that
  expires calls \<open>fetchBooks\<close> with its value, and so every request made is for a query of
  two characters at least.
\<close>

theorem handleInputChange_debounced:
  "length (filter (\<lambda>t. status t = Pending) (timers (after es (mount cache)))) \<le> 1
   \<and> (\<forall>t<length (timers (after es (mount cache))).
         status (timers (handleInputChange v (after es (mount cache))) ! t) \<noteq> Pending)
   \<and> (length (trim v) < 2 \<longrightarrow>
        suggestions (handleInputChange v (after es (mount cache))) = []
        \<and> \<not> isOpen (handleInputChange v (after es (mount cache)))
        \<and> \<not> isLoading (handleInputChange v (after es (mount cache)))
        \<and> length (timers (handleInputChange v (after es (mount cache))))
            = length (timers (after es (mount cache)))
        \<and> requests (handleInputChange v (after es (mount cache)))
            = requests (after es (mount cache)))
   \<and> (2 \<le> length (trim v) \<longrightarrow>
        length (timers (handleInputChange v (after es (mount cache))))
            = Suc (length (timers (after es (mount cache))))
        \<and> timers (handleInputChange v (after es (mount cache)))
              ! length (timers (after es (mount cache)))
            = \<lparr> timerValue = v, delay = 200, status = Pending \<rparr>
        \<and> debounceTimerRef (handleInputChange v (after es (mount cache)))
            = Some (length (timers (after es (mount cache))))
        \<and> requests (handleInputChange v (after es (mount cache)))
            = requests (after es (mount cache)))
   \<and> (\<forall>t\<in>set (timers (after es (mount cache))).
         2 \<le> length (trim (timerValue t)) \<and> delay t = 200)
   \<and> (\<forall>t<length (timers (after es (mount cache))).
         status (timers (after es (mount cache)) ! t) = Pending \<longrightarrow>
         debounceFires t (after es (mount cache))
           = fetchBooks (timerValue (timers (after es (mount cache)) ! t))
               ((after es (mount cache))
                  \<lparr> timers := (timers (after es (mount cache)))
                      [t := (timers (after es (mount cache)) ! t)\<lparr> status := Fired \<rparr>] \<rparr>))
   \<and> (\<forall>r\<in>set (requests (after es (mount cache))). 2 \<le> length (requestQuery r))"
proof -
  define s where "s = after es (mount cache)"
  have inv: "invariants s"
    unfolding s_def by (intro invariants_after invariants_mount)
  then have timer: "singleTimer s" and long: "longQueries s"
    by (simp_all add: invariants_def)
  have timer': "singleTimer (s\<lparr> query := v, activeIndex := - 1 \<rparr>)"
    using timer by (simp add: singleTimer_def)
  have one: "length (filter (\<lambda>t. status t = Pending) (timers s)) \<le> 1"
    using timer by (rule singleTimer_at_most_one)
  have cleared: "\<forall>t<length (timers s). status (timers (handleInputChange v s) ! t) \<noteq> Pending"
  proof (intro allI impI)
    fix t
    assume t: "t < length (timers s)"
    then have "status (timers (clearCurrent (s\<lparr> query := v, activeIndex := - 1 \<rparr>)) ! t) \<noteq> Pending"
      using clearCurrent_none_pending [OF timer', of t] by simp
    then show "status (timers (handleInputChange v s) ! t) \<noteq> Pending"
      using t
      by (cases "length (trim v) < 2")
        (simp_all add: handleInputChange_short handleInputChange_long nth_append)
  qed
  have short: "length (trim v) < 2 \<longrightarrow>
        suggestions (handleInputChange v s) = []
        \<and> \<not> isOpen (handleInputChange v s) \<and> \<not> isLoading (handleInputChange v s)
        \<and> length (timers (handleInputChange v s)) = length (timers s)
        \<and> requests (handleInputChange v s) = requests s"
    by (simp add: handleInputChange_short)
  have longer: "2 \<le> length (trim v) \<longrightarrow>
        length (timers (handleInputChange v s)) = Suc (length (timers s))
        \<and> timers (handleInputChange v s) ! length (timers s)
            = \<lparr> timerValue = v, delay = 200, status = Pending \<rparr>
        \<and> debounceTimerRef (handleInputChange v s) = Some (length (timers s))
        \<and> requests (handleInputChange v s) = requests s"
    by (simp add: handleInputChange_long nth_append)
  have timerValues: "\<forall>t\<in>set (timers s). 2 \<le> length (trim (timerValue t)) \<and> delay t = 200"
    using long by (simp add: longQueries_def)
  have fires: "\<forall>t<length (timers s). status (timers s ! t) = Pending \<longrightarrow>
         debounceFires t s
           = fetchBooks (timerValue (timers s ! t))
               (s\<lparr> timers := (timers s)[t := (timers s ! t)\<lparr> status := Fired \<rparr>] \<rparr>)"
    by (simp add: debounceFires_def)
  have queries: "\<forall>r\<in>set (requests s). 2 \<le> length (requestQuery r)"
    using long by (simp add: longQueries_def)
  from one cleared short longer timerValues fires queries show ?thesis
    unfolding s_def by (intro conjI)
qed


theorem handleInputChange_debounced_witness:
  "2 \<le> length (trim ''sup'')
   \<and> timers (handleInputChange ''sup'' (after [InputChange ''s'', InputChange ''su''] (mount Map.empty)))
       ! length (timers (after [InputChange ''s'', InputChange ''su''] (mount Map.empty)))
     = \<lparr> timerValue = ''sup'', delay = 200, status = Pending \<rparr>
   \<and> length (trim '' s '') < 2
   \<and> suggestions
       (handleInputChange '' s '' (after [InputChange ''s'', InputChange ''su''] (mount Map.empty)))
     = []
   \<and> map status (timers (after [InputChange ''s'', InputChange ''su''] (mount Map.empty)))
     = [Pending]
   \<and> status (timers
         (handleInputChange '' s '' (after [InputChange ''s'', InputChange ''su''] (mount Map.empty)))
         ! 0) \<noteq> Pending
   \<and> delay (timers (after [InputChange ''s'', InputChange ''su''] (mount Map.empty)) ! 0) = 200"
proof -
  have long: "2 \<le> length (trim ''sup'')" and short: "length (trim '' s '') < 2"
    by code_simp+
  have pending: "map status (timers (after [InputChange ''s'', InputChange ''su''] (mount Map.empty)))
     = [Pending]"
    by code_simp
  then have t: "0 < length (timers (after [InputChange ''s'', InputChange ''su''] (mount Map.empty)))"
    "timers (after [InputChange ''s'', InputChange ''su''] (mount Map.empty)) ! 0
       \<in> set (timers (after [InputChange ''s'', InputChange ''su''] (mount Map.empty)))"
    by (cases "timers (after [InputChange ''s'', InputChange ''su''] (mount Map.empty))"; simp)+
  from handleInputChange_debounced
      [of "[InputChange ''s'', InputChange ''su'']" Map.empty "''sup''"]
    handleInputChange_debounced
      [of "[InputChange ''s'', InputChange ''su'']" Map.empty "'' s ''"]
    long short pending t
  show ?thesis
    by blast
qed

subsection \<open>The typewriter\<close>

text \<open>
  Claim C7. After any events of the component the typewriter text, and with it the
  placeholder shown, is a prefix of \<open>Search for any book...\<close>. While typing, a step
  after 80 ms appends the next character of the text, until the text is complete; then,
  after 2000 ms, the phase changes to deleting, where a step after 40 ms removes the last
  character, until nothing is left; then, after 500 ms, typing starts again. No step is
  scheduled while the query is not empty or the input has the focus.
\<close>

theorem typewriter_prefix:
  "prefix (displayPlaceholder (after es (mount cache))) TYPEWRITER_TEXT
   \<and> prefix (placeholder (after es (mount cache))) TYPEWRITER_TEXT
   \<and> (query (after es (mount cache)) = [] \<and> \<not> isFocused (after es (mount cache)) \<longrightarrow>
        (isTyping (after es (mount cache))
           \<and> length (displayPlaceholder (after es (mount cache))) < length TYPEWRITER_TEXT \<longrightarrow>
           typewriterDelay (after es (mount cache)) = Some 80
           \<and> typewriterFires (after es (mount cache))
               = (after es (mount cache))
                   \<lparr> displayPlaceholder := displayPlaceholder (after es (mount cache))
                       @ [TYPEWRITER_TEXT ! length (displayPlaceholder (after es (mount cache)))] \<rparr>)
        \<and> (isTyping (after es (mount cache))
           \<and> \<not> length (displayPlaceholder (after es (mount cache))) < length TYPEWRITER_TEXT \<longrightarrow>
           displayPlaceholder (after es (mount cache)) = TYPEWRITER_TEXT
           \<and> typewriterDelay (after es (mount cache)) = Some 2000
           \<and> typewriterFires (after es (mount cache))
               = (after es (mount cache))\<lparr> isTyping := False \<rparr>)
        \<and> (\<not> isTyping (after es (mount cache))
           \<and> displayPlaceholder (after es (mount cache)) \<noteq> [] \<longrightarrow>
           typewriterDelay (after es (mount cache)) = Some 40
           \<and> typewriterFires (after es (mount cache))
               = (after es (mount cache))
                   \<lparr> displayPlaceholder := butlast (displayPlaceholder (after es (mount cache))) \<rparr>)
        \<and> (\<not> isTyping (after es (mount cache))
           \<and> displayPlaceholder (after es (mount cache)) = [] \<longrightarrow>
           typewriterDelay (after es (mount cache)) = Some 500
           \<and> typewriterFires (after es (mount cache))
               = (after es (mount cache))\<lparr> isTyping := True \<rparr>))
   \<and> (query (after es (mount cache)) \<noteq> [] \<or> isFocused (after es (mount cache)) \<longrightarrow>
        typewriterDelay (after es (mount cache)) = None
        \<and> typewriterFires (after es (mount cache)) = after es (mount cache))"
proof -
  define s where "s = after es (mount cache)"
  have inv: "invariants s"
    unfolding s_def by (intro invariants_after invariants_mount)
  then have shown: "prefixShown s"
    by (simp add: invariants_def)
  have eq: "displayPlaceholder s = take (length (displayPlaceholder s)) TYPEWRITER_TEXT"
    using shown by (simp only: prefixShown_def)
  have p1: "prefix (displayPlaceholder s) TYPEWRITER_TEXT"
    using take_is_prefix [of "length (displayPlaceholder s)" TYPEWRITER_TEXT] eq by simp
  have p2: "prefix (placeholder s) TYPEWRITER_TEXT"
    using p1 by (simp add: placeholder_def TYPEWRITER_TEXT_def)
  have grow: "take (length (displayPlaceholder s) + 1) TYPEWRITER_TEXT
      = displayPlaceholder s @ [TYPEWRITER_TEXT ! length (displayPlaceholder s)]"
    if "length (displayPlaceholder s) < length TYPEWRITER_TEXT"
  proof -
    have "take (Suc (length (displayPlaceholder s))) TYPEWRITER_TEXT
      = take (length (displayPlaceholder s)) TYPEWRITER_TEXT
          @ [TYPEWRITER_TEXT ! length (displayPlaceholder s)]"
      using that by (rule take_Suc_conv_app_nth)
    then show ?thesis
      using eq by simp
  qed
  have full: "displayPlaceholder s = TYPEWRITER_TEXT"
    if "\<not> length (displayPlaceholder s) < length TYPEWRITER_TEXT"
  proof -
    have "take (length (displayPlaceholder s)) TYPEWRITER_TEXT = TYPEWRITER_TEXT"
      using that by simp
    with eq show ?thesis
      by simp
  qed
  have running: "query s = [] \<and> \<not> isFocused s \<longrightarrow>
        (isTyping s \<and> length (displayPlaceholder s) < length TYPEWRITER_TEXT \<longrightarrow>
           typewriterDelay s = Some 80
           \<and> typewriterFires s
               = s\<lparr> displayPlaceholder := displayPlaceholder s
                       @ [TYPEWRITER_TEXT ! length (displayPlaceholder s)] \<rparr>)
        \<and> (isTyping s \<and> \<not> length (displayPlaceholder s) < length TYPEWRITER_TEXT \<longrightarrow>
           displayPlaceholder s = TYPEWRITER_TEXT
           \<and> typewriterDelay s = Some 2000
           \<and> typewriterFires s = s\<lparr> isTyping := False \<rparr>)
        \<and> (\<not> isTyping s \<and> displayPlaceholder s \<noteq> [] \<longrightarrow>
           typewriterDelay s = Some 40
           \<and> typewriterFires s = s\<lparr> displayPlaceholder := butlast (displayPlaceholder s) \<rparr>)
        \<and> (\<not> isTyping s \<and> displayPlaceholder s = [] \<longrightarrow>
           typewriterDelay s = Some 500
           \<and> typewriterFires s = s\<lparr> isTyping := True \<rparr>)"
    using grow full
    by (simp add: typewriterDelay_def typewriterFires_def TYPING_SPEED_def DELETING_SPEED_def
        PAUSE_AFTER_TYPE_def PAUSE_AFTER_DELETE_def)
  have suspended: "query s \<noteq> [] \<or> isFocused s \<longrightarrow>
        typewriterDelay s = None \<and> typewriterFires s = s"
    by (auto simp: typewriterDelay_def typewriterFires_def)
  from p1 p2 running suspended show ?thesis
    unfolding s_def by (intro conjI)
qed

theorem typewriter_prefix_witness:
  "displayPlaceholder (after [TypewriterFires, TypewriterFires] (mount Map.empty)) = ''Se''
   \<and> query (after [TypewriterFires, TypewriterFires] (mount Map.empty)) = []
   \<and> typewriterDelay (after [TypewriterFires, TypewriterFires] (mount Map.empty)) = Some 80
   \<and> typewriterFires (after [TypewriterFires, TypewriterFires] (mount Map.empty))
       = (after [TypewriterFires, TypewriterFires] (mount Map.empty))
           \<lparr> displayPlaceholder :=
               displayPlaceholder (after [TypewriterFires, TypewriterFires] (mount Map.empty))
               @ [TYPEWRITER_TEXT
                    ! length (displayPlaceholder
                        (after [TypewriterFires, TypewriterFires] (mount Map.empty)))] \<rparr>
   \<and> isFocused (after [TypewriterFires, Focus] (mount Map.empty))
   \<and> typewriterDelay (after [TypewriterFires, Focus] (mount Map.empty)) = None
   \<and> prefix (placeholder (after [TypewriterFires, Focus] (mount Map.empty))) TYPEWRITER_TEXT"
proof -
  have shown: "displayPlaceholder (after [TypewriterFires, TypewriterFires] (mount Map.empty)) = ''Se''"
    and running: "query (after [TypewriterFires, TypewriterFires] (mount Map.empty)) = []"
      "\<not> isFocused (after [TypewriterFires, TypewriterFires] (mount Map.empty))"
      "isTyping (after [TypewriterFires, TypewriterFires] (mount Map.empty))"
      "length (displayPlaceholder (after [TypewriterFires, TypewriterFires] (mount Map.empty)))
         < length TYPEWRITER_TEXT"
    and focused: "isFocused (after [TypewriterFires, Focus] (mount Map.empty))"
    by code_simp+
  from typewriter_prefix [of "[TypewriterFires, TypewriterFires]" Map.empty]
    typewriter_prefix [of "[TypewriterFires, Focus]" Map.empty]
    shown running focused
  show ?thesis
    by blast
qed

subsection \<open>The cache\<close>

lemma searchCache_handle:
  assumes "singleFlight s" "searchCache s k = Some v"
  shows "searchCache (snd (handle onSelect e s)) k = Some v"
proof (cases e)
  case (InputChange x)
  have "searchCache (handleInputChange x s) = searchCache s"
    by (simp add: handleInputChange_def clearCurrent_def [symmetric] Let_def)
  with assms InputChange show ?thesis by (simp add: handle_def)
next
  case Focus
  with assms show ?thesis by (simp add: handle_def onFocus_def Let_def)
next
  case Blur
  with assms show ?thesis by (simp add: handle_def)
next
  case (KeyDown x)
  with assms show ?thesis
    by (cases x) (simp_all add: handle_def handleKeyDown_def selectSuggestion_def)
next
  case (Click i)
  with assms show ?thesis by (simp add: handle_def selectSuggestion_def)
next
  case (MouseEnter i)
  with assms show ?thesis by (simp add: handle_def)
next
  case ClickOutside
  with assms show ?thesis by (simp add: handle_def)
next
  case (DebounceFires t)
  have "searchCache (fetchBooks q s1) = searchCache s1" for q s1
    by (simp add: fetchBooks_def abortCurrent_def [symmetric] Let_def split: option.splits)
  with assms DebounceFires show ?thesis
    by (simp add: handle_def debounceFires_def)
next
  case (FetchSettles c r)
  show ?thesis
  proof (cases "c < length (requests s) \<and> inFlight (requests s ! c)")
    case True
    with assms(1) have "searchCache s (requestKey (requests s ! c)) = None"
      by (simp add: singleFlight_def)
    with assms(2) have "requestKey (requests s ! c) \<noteq> k"
      by auto
    with assms(2) FetchSettles show ?thesis
      by (simp add: handle_def fetchSettles_def Let_def split: reply.splits body.splits sum.splits)
  next
    case False
    with assms(2) FetchSettles show ?thesis
      by (auto simp: handle_def fetchSettles_def Let_def inFlight_def
          split: reply.splits body.splits sum.splits)
  qed
next
  case TypewriterFires
  with assms show ?thesis by (simp add: handle_def typewriterFires_def)
next
  case Unmount
  have "searchCache (unmount s) = searchCache s"
    by (simp add: unmount_def clearCurrent_def [symmetric] abortCurrent_def [symmetric])
  with assms Unmount show ?thesis by (simp add: handle_def)
qed

lemma searchCache_run:
  "invariants s \<Longrightarrow> searchCache s k = Some v \<Longrightarrow>
     searchCache (snd (run onSelect es s)) k = Some v"
proof (induction es arbitrary: s)
  case Nil
  then show ?case by simp
next
  case (Cons e es)
  have "singleFlight s"
    using Cons.prems(1) by (simp add: invariants_def)
  then have "searchCache (snd (handle onSelect e s)) k = Some v"
    using Cons.prems(2) by (rule searchCache_handle)
  from Cons.IH [OF invariants_handle [OF Cons.prems(1), of onSelect e] this] show ?case
    by (simp add: split_def Let_def)
qed

text \<open>
  Claim C9. When the fetch of a request in flight settles with an ok response and its
  documents, and so \<open>fetchBooks\<close> succeeds with the list \<open>results\<close> of the ranking, this
  list is in the cache under the key of the request, which is its query in lower case.
  Whatever events follow, a later \<open>fetchBooks\<close> for a query with the same key, trimmed and
  in lower case, sets this list as the suggestions and does nothing else to the state: it
  makes no request and aborts none.
\<close>

theorem fetchBooks_cached:
  "c < length (requests (after es (mount cache)))
   \<and> inFlight (requests (after es (mount cache)) ! c)
   \<and> rankBooks (requestQuery (requests (after es (mount cache)) ! c)) docs = Inr results
   \<and> toLowerCase (trim q) = requestKey (requests (after es (mount cache)) ! c) \<longrightarrow>
     requestKey (requests (after es (mount cache)) ! c)
       = toLowerCase (requestQuery (requests (after es (mount cache)) ! c))
     \<and> fetchBooks q (after es' (fetchSettles c (Ok (Json docs)) (after es (mount cache))))
       = (after es' (fetchSettles c (Ok (Json docs)) (after es (mount cache))))
           \<lparr> suggestions := results,
             isLoading := False, isOpen := True \<rparr>
     \<and> requests (fetchBooks q (after es' (fetchSettles c (Ok (Json docs)) (after es (mount cache)))))
       = requests (after es' (fetchSettles c (Ok (Json docs)) (after es (mount cache))))
     \<and> abortControllerRef
         (fetchBooks q (after es' (fetchSettles c (Ok (Json docs)) (after es (mount cache)))))
       = abortControllerRef (after es' (fetchSettles c (Ok (Json docs)) (after es (mount cache))))"
proof (intro impI)
  define s where "s = after es (mount cache)"
  define s1 where "s1 = fetchSettles c (Ok (Json docs)) s"
  define s2 where "s2 = after es' s1"
  assume "c < length (requests (after es (mount cache)))
   \<and> inFlight (requests (after es (mount cache)) ! c)
   \<and> rankBooks (requestQuery (requests (after es (mount cache)) ! c)) docs = Inr results
   \<and> toLowerCase (trim q) = requestKey (requests (after es (mount cache)) ! c)"
  then have c: "c < length (requests s)" "inFlight (requests s ! c)"
    and ranked: "rankBooks (requestQuery (requests s ! c)) docs = Inr results"
    and q: "toLowerCase (trim q) = requestKey (requests s ! c)"
    by (simp_all add: s_def)
  have inv: "invariants s"
    unfolding s_def by (intro invariants_after invariants_mount)
  have "invariants (snd (handle (\<lambda>b. []) (FetchSettles c (Ok (Json docs))) s))"
    using inv by (rule invariants_handle)
  then have inv1: "invariants s1"
    by (simp add: handle_def s1_def)
  have "requests s ! c \<in> set (requests s)"
    using c(1) by simp
  then have key: "requestKey (requests s ! c) = toLowerCase (requestQuery (requests s ! c))"
    using inv by (simp add: invariants_def longQueries_def)
  have "searchCache s1 (requestKey (requests s ! c))
      = Some results"
    using c ranked by (simp add: s1_def fetchSettles_def Let_def inFlight_def)
  then have "searchCache s2 (toLowerCase (trim q))
      = Some results"
    unfolding s2_def after_def q using inv1 by (intro searchCache_run)
  then have hit: "fetchBooks q s2
      = s2\<lparr> suggestions := results,
           isLoading := False, isOpen := True \<rparr>"
    by (rule fetchBooks_hit)
  then have "requests (fetchBooks q s2) = requests s2"
    "abortControllerRef (fetchBooks q s2) = abortControllerRef s2"
    by simp_all
  with key hit
  show "requestKey (requests (after es (mount cache)) ! c)
       = toLowerCase (requestQuery (requests (after es (mount cache)) ! c))
     \<and> fetchBooks q (after es' (fetchSettles c (Ok (Json docs)) (after es (mount cache))))
       = (after es' (fetchSettles c (Ok (Json docs)) (after es (mount cache))))
           \<lparr> suggestions := results,
             isLoading := False, isOpen := True \<rparr>
     \<and> requests (fetchBooks q (after es' (fetchSettles c (Ok (Json docs)) (after es (mount cache)))))
       = requests (after es' (fetchSettles c (Ok (Json docs)) (after es (mount cache))))
     \<and> abortControllerRef
         (fetchBooks q (after es' (fetchSettles c (Ok (Json docs)) (after es (mount cache)))))
       = abortControllerRef (after es' (fetchSettles c (Ok (Json docs)) (after es (mount cache))))"
    unfolding s_def s1_def s2_def by (intro conjI)
qed


theorem fetchBooks_cached_witness:
  "map requestKey (requests (after [InputChange ''Super'', DebounceFires 0] (mount Map.empty)))
     = [''super'']
   \<and> inFlight (requests (after [InputChange ''Super'', DebounceFires 0] (mount Map.empty)) ! 0)
   \<and> rankBooks
         (requestQuery (requests (after [InputChange ''Super'', DebounceFires 0] (mount Map.empty)) ! 0))
         [superManDoc, supermanDoc]
       = Inr [supermanBook, superManBook]
   \<and> toLowerCase (trim '' SUPER'') = ''super''
   \<and> fetchBooks '' SUPER''
       (after [InputChange ''s'', Blur]
          (fetchSettles 0 (Ok (Json [superManDoc, supermanDoc]))
             (after [InputChange ''Super'', DebounceFires 0] (mount Map.empty))))
     = (after [InputChange ''s'', Blur]
          (fetchSettles 0 (Ok (Json [superManDoc, supermanDoc]))
             (after [InputChange ''Super'', DebounceFires 0] (mount Map.empty))))
         \<lparr> suggestions := [supermanBook, superManBook], isLoading := False, isOpen := True \<rparr>"
proof -
  have keys: "map requestKey
       (requests (after [InputChange ''Super'', DebounceFires 0] (mount Map.empty))) = [''super'']"
    and queries: "map requestQuery
       (requests (after [InputChange ''Super'', DebounceFires 0] (mount Map.empty))) = [''Super'']"
    and live: "inFlight
       (requests (after [InputChange ''Super'', DebounceFires 0] (mount Map.empty)) ! 0)"
    and q: "toLowerCase (trim '' SUPER'') = ''super''"
    by code_simp+
  from keys have c: "0 < length (requests (after [InputChange ''Super'', DebounceFires 0] (mount Map.empty)))"
    "requestKey (requests (after [InputChange ''Super'', DebounceFires 0] (mount Map.empty)) ! 0)
       = ''super''"
    by (cases "requests (after [InputChange ''Super'', DebounceFires 0] (mount Map.empty))"; simp)+
  from queries
  have "requestQuery (requests (after [InputChange ''Super'', DebounceFires 0] (mount Map.empty)) ! 0)
       = ''Super''"
    by (cases "requests (after [InputChange ''Super'', DebounceFires 0] (mount Map.empty))"; simp)
  then have ranked: "rankBooks
         (requestQuery (requests (after [InputChange ''Super'', DebounceFires 0] (mount Map.empty)) ! 0))
         [superManDoc, supermanDoc]
       = Inr [supermanBook, superManBook]"
    by (simp add: example_rankBooks)
  from fetchBooks_cached [of 0 "[InputChange ''Super'', DebounceFires 0]" Map.empty
      "[superManDoc, supermanDoc]" "[supermanBook, superManBook]" "'' SUPER''"
      "[InputChange ''s'', Blur]"] keys live q c ranked
  show ?thesis
    by simp
qed

section \<open>The views and their routes\<close>

text \<open>
  What a component returns: a tree of elements. An element has a type, which is a tag of
  the document or a component, props and children; the value of a prop is a string, an
  element or a function. The trees below keep the elements, their class names, the props
  of the components and the event handlers; they leave out the text and the attributes
  of the document's elements that hold no handler, such as \<open>key\<close>, \<open>ref\<close>, \<open>type\<close>, \<open>role\<close>,
  \<open>aria-*\<close>, \<open>style\<close>, \<open>src\<close>, \<open>alt\<close>, \<open>title\<close>, the value and the placeholder of the
  input, and the geometry of the icons.
\<close>

datatype component =
  StrictMode | BrowserRouter | Routes | Route | App | BookDetails | AudioPlayer | BookAutocomplete

datatype kind = Host string | Comp component

datatype 'h node =
    Element kind "(string \<times> 'h node) list" "'h node list"
  | Text string
  | Handler 'h

definition el :: "string \<Rightarrow> string \<Rightarrow> 'h node list \<Rightarrow> 'h node" where
  \<comment> \<open>\<open><name className="cls">children</name>\<close>\<close>
  "el name cls children = Element (Host name) [(''className'', Text cls)] children"

definition plain :: "string \<Rightarrow> 'h node list \<Rightarrow> 'h node" where
  \<comment> \<open>\<open><name>children</name>\<close>\<close>
  "plain name children = Element (Host name) [] children"

definition onlyIf :: "bool \<Rightarrow> 'a \<Rightarrow> 'a list" where
  \<comment> \<open>\<open>{condition && <element />}\<close> among the children\<close>
  "onlyIf condition element = (if condition then [element] else [])"

text \<open>The component elements of a tree, each with its props, and the functions in it.\<close>

fun components :: "'h node \<Rightarrow> (component \<times> (string \<times> 'h node) list) list" where
  "components (Element k props children) =
     (case k of Comp c \<Rightarrow> [(c, props)] | Host name \<Rightarrow> [])
     @ concat (map (\<lambda>(name, v). components v) props)
     @ concat (map components children)"
| "components (Text s) = []"
| "components (Handler h) = []"

fun handlers :: "'h node \<Rightarrow> 'h list" where
  "handlers (Element k props children) =
     concat (map (\<lambda>(name, v). handlers v) props) @ concat (map handlers children)"
| "handlers (Text s) = []"
| "handlers (Handler h) = [h]"

subsection \<open>The functions of the views\<close>

text \<open>
  The functions that the three views pass as props: \<open>handleBookSelect\<close> as the callback
  of the search input, and the event handlers. Those of \<open>BookDetails\<close> and \<open>AudioPlayer\<close>
  are closures of a render: \<open>handleSummary\<close> holds the book, and the function that toggles
  the script holds the value it sets.
\<close>

datatype viewHandler =
    Callback "suggestion \<Rightarrow> action list"
  | NavigateTo string
  | NavigateBy int
  | HandleSummary suggestion
  | HandleFullBook
  | SetImageLoaded bool
  | SetImageError bool
  | SetShowScript bool

subsection \<open>The route table\<close>

definition main :: "viewHandler node" where
  \<comment> \<open>the element that \<open>main.jsx\<close> renders into the root\<close>
  "main =
     Element (Comp StrictMode) []
       [Element (Comp BrowserRouter) []
          [Element (Comp Routes) []
             [Element (Comp Route)
                [(''path'', Text ''/''), (''element'', Element (Comp App) [] [])] [],
              Element (Comp Route)
                [(''path'', Text ''/book''), (''element'', Element (Comp BookDetails) [] [])] [],
              Element (Comp Route)
                [(''path'', Text ''/player''), (''element'', Element (Comp AudioPlayer) [] [])]
                []]]]"

text \<open>The routes of a tree: the \<open>Route\<close> children of its \<open>Routes\<close> elements, path and element.\<close>

definition routeOf :: "'h node \<Rightarrow> (string \<times> component) list" where
  "routeOf n =
     (case n of
        Element (Comp Route) props children \<Rightarrow>
          (case (map_of props ''path'', map_of props ''element'') of
             (Some (Text path), Some (Element (Comp c) ps cs)) \<Rightarrow> [(path, c)]
           | _ \<Rightarrow> [])
      | _ \<Rightarrow> [])"

fun routesOf :: "'h node \<Rightarrow> (string \<times> component) list" where
  "routesOf (Element k props children) =
     (if k = Comp Routes then concat (map routeOf children)
      else concat (map routesOf children))"
| "routesOf (Text s) = []"
| "routesOf (Handler h) = []"

text \<open>
  How the router matches the decoded path of a location against the path of a route that
  has no parameter and no child: the pattern is the path with one slash at its start and
  none at its end, letters match in upper and lower case, and slashes may follow.
\<close>

definition pattern :: "string \<Rightarrow> string" where
  "pattern path =
     CHR ''/'' # rev (dropWhile (\<lambda>c. c = CHR ''/'') (rev (dropWhile (\<lambda>c. c = CHR ''/'') path)))"

definition matchPath :: "string \<Rightarrow> string \<Rightarrow> bool" where
  "matchPath path pathname \<longleftrightarrow>
     length (pattern path) \<le> length pathname
     \<and> map canonicalize (take (length (pattern path)) pathname) = map canonicalize (pattern path)
     \<and> (\<forall>c\<in>set (drop (length (pattern path)) pathname). c = CHR ''/'')"

definition matchRoutes :: "(string \<times> component) list \<Rightarrow> string \<Rightarrow> component list" where
  \<comment> \<open>the elements of the routes that match\<close>
  "matchRoutes routes pathname = map snd (filter (\<lambda>(path, c). matchPath path pathname) routes)"

subsection \<open>The home screen\<close>

definition handleBookSelect :: "suggestion \<Rightarrow> action list" where
  \<comment> \<open>\<open>navigate('/book', { state: { book } })\<close>\<close>
  "handleBookSelect selected = [Navigate ''/book'' (BookState selected)]"

definition renderApp :: "bool \<Rightarrow> viewHandler node" where
  \<comment> \<open>what \<open>App\<close> returns, for the state \<open>showContent\<close>\<close>
  "renderApp showContent =
     el ''div'' ''homepage''
       [el ''div'' ''background-overlay'' [],
        el ''div'' ''background-image'' [],
        el ''div'' (''content '' @ (if showContent then ''visible'' else ''''))
          [el ''h1'' ''title glitch-wrapper''
             [el ''span'' ''title-text''
                (map (\<lambda>(index, letter).
                        el ''span''
                          (''title-letter ''
                             @ (if index < 7 then ''podcast-letter'' else ''ify-letter'')) [])
                   (enumerate 0 ''Podcastify'')),
              el ''span'' ''glitch-layer glitch-1'' [],
              el ''span'' ''glitch-layer glitch-2'' []],
           el ''p'' ''tagline'' [],
           el ''div'' ''search-container''
             [Element (Comp BookAutocomplete)
                [(''onSelect'', Handler (Callback handleBookSelect))] []]]]"

subsection \<open>The book details\<close>

definition stateBook :: "navigationState option \<Rightarrow> suggestion option" where
  \<comment> \<open>the \<open>book\<close> of \<open>location.state\<close>, which is \<open>null\<close> if the page was not opened by
      \<open>navigate\<close>\<close>
  "stateBook state =
     (case state of
        None \<Rightarrow> None
      | Some (BookState b) \<Rightarrow> Some b
      | Some (PlayerState p) \<Rightarrow> Some (book p))"

definition hasCover :: "suggestion \<Rightarrow> bool" where
  \<comment> \<open>\<open>getCoverUrl\<close> of \<open>BookDetails\<close> returns a URL: the book has a cover id, a first ISBN
      or a key\<close>
  "hasCover b \<longleftrightarrow>
     truthyNumber (suggestion.cover_i b)
     \<or> (case suggestion.isbn b of Some (first # others) \<Rightarrow> first \<noteq> [] | _ \<Rightarrow> False)
     \<or> suggestion.key b \<noteq> []"

definition arrowIcon :: "'h node" where
  "arrowIcon = plain ''svg'' [plain ''path'' []]"

definition microphoneIcon :: "'h node" where
  "microphoneIcon = plain ''svg'' [plain ''path'' [], plain ''path'' [], plain ''line'' []]"

definition renderBookDetails ::
  "navigationState option \<Rightarrow> bool \<Rightarrow> bool \<Rightarrow> bookDetails \<Rightarrow> viewHandler node" where
  \<comment> \<open>what \<open>BookDetails\<close> returns, for the state of the location and the states
      \<open>imageLoaded\<close>, \<open>imageError\<close> and those that \<open>handleSummary\<close> writes\<close>
  "renderBookDetails state imageLoaded imageError st =
     (case stateBook state of
        None \<Rightarrow>
          el ''div'' ''book-details-page''
            [el ''div'' ''error-container''
               [plain ''h2'' [],
                Element (Host ''button'')
                  [(''onClick'', Handler (NavigateTo ''/'')), (''className'', Text ''back-button'')]
                  []]]
      | Some selected \<Rightarrow>
          if isSearching st then
            el ''div'' ''book-details-page''
              [el ''div'' ''background-overlay'' [],
               el ''div'' ''background-blur'' [],
               el ''div'' ''searching-overlay''
                 [el ''div'' ''searching-content''
                    [el ''div'' ''searching-icon''
                       [plain ''svg'' [plain ''path'' [], plain ''path'' [], plain ''path'' []],
                        el ''div'' ''searching-pulse'' []],
                     el ''h2'' ''searching-title'' [],
                     el ''p'' ''searching-step'' [],
                     el ''div'' ''searching-dots''
                       [plain ''span'' [], plain ''span'' [], plain ''span'' []]]]]
          else
            el ''div'' ''book-details-page''
              [el ''div'' ''background-overlay'' [],
               el ''div'' ''background-blur'' [],
               Element (Host ''button'')
                 [(''onClick'', Handler (NavigateTo ''/'')), (''className'', Text ''back-button'')]
                 [arrowIcon],
               el ''div'' ''book-content''
                 ([el ''div'' ''cover-container''
                     (onlyIf (\<not> imageLoaded \<and> \<not> imageError \<and> hasCover selected)
                        (el ''div'' ''cover-skeleton'' [el ''div'' ''skeleton-shimmer'' []])
                      @ onlyIf (hasCover selected \<and> \<not> imageError)
                          (Element (Host ''img'')
                             [(''className'',
                               Text (''book-cover '' @ (if imageLoaded then ''loaded'' else ''loading''))),
                              (''onLoad'', Handler (SetImageLoaded True)),
                              (''onError'', Handler (SetImageError True))] [])
                      @ onlyIf (\<not> hasCover selected \<or> imageError)
                          (el ''div'' ''cover-placeholder''
                             [el ''span'' ''placeholder-title'' [],
                              el ''span'' ''placeholder-author'' []])),
                   el ''div'' ''book-info''
                     ([el ''h1'' ''book-title'' [], el ''p'' ''book-author'' []]
                      @ onlyIf (truthyNumber (year selected)) (el ''p'' ''book-year'' [])),
                   el ''div'' ''convert-buttons''
                     [Element (Host ''button'')
                        [(''className'', Text ''convert-button summary-button''),
                         (''onClick'', Handler (HandleSummary selected))]
                        [microphoneIcon, el ''span'' ''button-badge free'' []],
                      Element (Host ''button'')
                        [(''className'', Text ''convert-button full-button locked''),
                         (''onClick'', Handler HandleFullBook)]
                        [microphoneIcon,
                         el ''span'' ''button-badge pro''
                           [plain ''svg'' [plain ''rect'' [], plain ''path'' []]]]]]
                  @ onlyIf (case downloadError st of None \<Rightarrow> False | Some message \<Rightarrow> message \<noteq> [])
                      (el ''div'' ''download-error''
                         [plain ''svg'' [plain ''circle'' [], plain ''line'' [], plain ''line'' []]]))])"

subsection \<open>The player\<close>

definition stateScript :: "navigationState option \<Rightarrow> string option" where
  \<comment> \<open>\<open>scriptInfo?.script\<close>, if it is truthy\<close>
  "stateScript state =
     (case state of
        Some (PlayerState p) \<Rightarrow>
          (case script (scriptInfo p) of
             None \<Rightarrow> None
           | Some s \<Rightarrow> if s = [] then None else Some s)
      | _ \<Rightarrow> None)"

definition renderAudioPlayer :: "navigationState option \<Rightarrow> bool \<Rightarrow> viewHandler node" where
  \<comment> \<open>what \<open>AudioPlayer\<close> returns, for the state of the location and the state
      \<open>showScript\<close>\<close>
  "renderAudioPlayer state showScript =
     (case stateBook state of
        None \<Rightarrow>
          el ''div'' ''audio-player-page''
            [el ''div'' ''error-container''
               [plain ''h2'' [],
                Element (Host ''button'')
                  [(''onClick'', Handler (NavigateTo ''/'')), (''className'', Text ''back-button'')]
                  []]]
      | Some selected \<Rightarrow>
          el ''div'' ''audio-player-page''
            ([el ''div'' ''audio-bg-gradient'' []]
             @ onlyIf (truthyNumber (suggestion.cover_i selected)) (el ''div'' ''audio-bg-cover'' [])
             @ [Element (Host ''button'')
                  [(''onClick'', Handler (NavigateBy (- 1))), (''className'', Text ''back-button'')]
                  [arrowIcon],
                el ''div'' ''audio-content''
                  ([el ''div'' ''audio-header''
                      [el ''div'' ''audio-cover-small''
                         [if truthyNumber (suggestion.cover_i selected) then plain ''img'' []
                          else el ''div'' ''cover-placeholder-small'' [plain ''span'' []]],
                       el ''div'' ''audio-info''
                         [el ''h1'' ''audio-title'' [],
                          el ''p'' ''audio-author'' [],
                          el ''p'' ''audio-meta'' []]]]
                   @ onlyIf (stateScript state \<noteq> None)
                       (el ''div'' ''script-container''
                          ([el ''div'' ''script-header''
                              [plain ''h2'' [],
                               Element (Host ''button'')
                                 [(''className'', Text ''toggle-script-btn''),
                                  (''onClick'', Handler (SetShowScript (\<not> showScript)))] []]]
                           @ onlyIf showScript
                               (el ''div'' ''script-content''
                                  (map (\<lambda>line.
                                          el ''div'' (''dialogue-line '' @ toLowerCase (speaker line))
                                            [el ''span'' ''speaker-name'' [],
                                             el ''p'' ''speaker-text'' []])
                                     (parseScript (stateScript state))))))
                   @ [el ''div'' ''player-container''
                        [el ''div'' ''progress-bar'' [el ''div'' ''progress-fill'' []],
                         el ''div'' ''time-display'' [plain ''span'' [], plain ''span'' []],
                         el ''div'' ''player-controls''
                           [el ''button'' ''control-btn secondary'' [plain ''svg'' [plain ''path'' []]],
                            el ''button'' ''control-btn primary play-btn''
                              [plain ''svg'' [plain ''path'' []]],
                            el ''button'' ''control-btn secondary'' [plain ''svg'' [plain ''path'' []]]],
                         el ''div'' ''extra-controls''
                           [el ''button'' ''extra-btn'' [plain ''span'' []],
                            el ''button'' ''extra-btn''
                              [plain ''svg''
                                 [plain ''path'' [], plain ''polyline'' [], plain ''line'' []]],
                            el ''button'' ''extra-btn''
                              [plain ''svg''
                                 [plain ''circle'' [], plain ''circle'' [], plain ''circle'' [],
                                  plain ''line'' [], plain ''line'' []]]]],
                      el ''div'' ''generating-status''
                        [el ''div'' ''status-spinner'' [], plain ''span'' []]])]))"

subsection \<open>The search input\<close>

text \<open>
  The functions of \<open>BookAutocomplete\<close>. Those of a suggestion of the list are closures
  that hold its index and the book.
\<close>

datatype inputHandler =
    HandleInputChange
  | HandleKeyDown
  | OnFocus
  | OnBlur
  | SelectSuggestion nat suggestion
  | HoverSuggestion nat suggestion

definition renderBookAutocomplete :: "string \<Rightarrow> autocomplete \<Rightarrow> inputHandler node" where
  \<comment> \<open>what \<open>BookAutocomplete\<close> returns, for the prop \<open>className\<close> and its state\<close>
  "renderBookAutocomplete className s =
     el ''div'' (''book-autocomplete '' @ className)
       ([el ''div'' ''autocomplete-input-wrapper''
           ([el ''svg'' ''search-icon'' [plain ''circle'' [], plain ''path'' []],
             Element (Host ''input'')
               [(''onChange'', Handler HandleInputChange),
                (''onKeyDown'', Handler HandleKeyDown),
                (''onFocus'', Handler OnFocus),
                (''onBlur'', Handler OnBlur),
                (''className'', Text ''autocomplete-input'')] []]
            @ onlyIf (isLoading s) (el ''div'' ''loading-spinner'' [el ''div'' ''spinner'' []]))]
        @ onlyIf (isOpen s)
            (el ''ul'' ''suggestions-list''
               (if length (suggestions s) = 0 \<and> \<not> isLoading s
                then [el ''li'' ''suggestion-empty'' []]
                else map (\<lambda>(index, selected).
                            Element (Host ''li'')
                              [(''className'',
                                Text (''suggestion-item ''
                                  @ (if int index = activeIndex s then ''active'' else ''''))),
                               (''onClick'', Handler (SelectSuggestion index selected)),
                               (''onMouseEnter'', Handler (HoverSuggestion index selected))]
                              [el ''span'' ''suggestion-title'' [],
                               el ''span'' ''suggestion-meta'' []])
                       (enumerate 0 (suggestions s)))))"

text \<open>The event of the component that a function of the tree stands for.\<close>

definition dispatches :: "inputHandler \<Rightarrow> event \<Rightarrow> bool" where
  "dispatches h e =
     (case h of
        HandleInputChange \<Rightarrow> (case e of InputChange v \<Rightarrow> True | _ \<Rightarrow> False)
      | HandleKeyDown \<Rightarrow> (case e of KeyDown k \<Rightarrow> True | _ \<Rightarrow> False)
      | OnFocus \<Rightarrow> e = Focus
      | OnBlur \<Rightarrow> e = Blur
      | SelectSuggestion index selected \<Rightarrow> e = Click index
      | HoverSuggestion index selected \<Rightarrow> e = MouseEnter index)"

subsection \<open>Where the views navigate\<close>

text \<open>
  A call of \<open>navigate\<close>: to a path, with a state or without one, or by a number of entries
  in the history.
\<close>

datatype navigation = To string "navigationState option" | By int

text \<open>
  The calls of \<open>navigate\<close> that a function of a view makes: if it is called with
  \<open>selected\<close>, if it takes an argument, and if the endpoints give the three replies, if it
  calls them.
\<close>

fun navigationsOf ::
  "viewHandler \<Rightarrow> suggestion \<Rightarrow> pdfData reply \<Rightarrow> chapterData reply \<Rightarrow> scriptData reply
     \<Rightarrow> navigation list" where
  "navigationsOf (Callback f) selected pdfReply chapterReply scriptReply =
     map (\<lambda>(path, state). To path (Some state)) (navigations (f selected))"
| "navigationsOf (NavigateTo path) selected pdfReply chapterReply scriptReply = [To path None]"
| "navigationsOf (NavigateBy delta) selected pdfReply chapterReply scriptReply = [By delta]"
| "navigationsOf (HandleSummary b) selected pdfReply chapterReply scriptReply =
     map (\<lambda>(path, state). To path (Some state))
       (navigations (handleSummary b pdfReply chapterReply scriptReply))"
| "navigationsOf HandleFullBook selected pdfReply chapterReply scriptReply = []"
| "navigationsOf (SetImageLoaded b) selected pdfReply chapterReply scriptReply = []"
| "navigationsOf (SetImageError b) selected pdfReply chapterReply scriptReply = []"
| "navigationsOf (SetShowScript b) selected pdfReply chapterReply scriptReply = []"

subsection \<open>The elements of the trees\<close>

lemma concat_map_Nil [simp]: "concat (map (\<lambda>x. []) xs) = []"
  by (induction xs) simp_all

lemma components_simps [simp]:
  "components (el name cls children) = concat (map components children)"
  "components (plain name children) = concat (map components children)"
  "handlers (el name cls children) = concat (map handlers children)"
  "handlers (plain name children) = concat (map handlers children)"
  by (simp_all add: el_def plain_def)

lemma onlyIf_simps [simp]:
  "concat (map f (onlyIf condition element)) = (if condition then f element else [])"
  by (simp add: onlyIf_def)

lemma icons_simps [simp]:
  "components arrowIcon = []" "handlers arrowIcon = []"
  "components microphoneIcon = []" "handlers microphoneIcon = []"
  by (simp_all add: arrowIcon_def microphoneIcon_def)

lemma routesOf_main:
  "routesOf main = [(''/'', App), (''/book'', BookDetails), (''/player'', AudioPlayer)]"
  by (simp add: main_def routeOf_def)

lemma components_renderApp:
  "components (renderApp showContent)
     = [(BookAutocomplete, [(''onSelect'', Handler (Callback handleBookSelect))])]"
  by (simp add: renderApp_def comp_def split_def)

lemma handlers_renderApp:
  "handlers (renderApp showContent) = [Callback handleBookSelect]"
  by (simp add: renderApp_def comp_def split_def)

lemma components_renderBookDetails:
  "components (renderBookDetails state imageLoaded imageError st) = []"
  by (simp add: renderBookDetails_def split: option.splits)

lemma handlers_renderBookDetails:
  "set (handlers (renderBookDetails state imageLoaded imageError st))
     \<subseteq> {NavigateTo ''/'', HandleFullBook, SetImageLoaded True, SetImageError True}
       \<union> {h. \<exists>selected. stateBook state = Some selected \<and> h = HandleSummary selected}"
  by (auto simp add: renderBookDetails_def split: option.splits if_splits)

lemma components_renderAudioPlayer:
  "components (renderAudioPlayer state showScript) = []"
  by (simp add: renderAudioPlayer_def comp_def split: option.splits)

lemma handlers_renderAudioPlayer:
  "set (handlers (renderAudioPlayer state showScript))
     \<subseteq> {NavigateTo ''/'', NavigateBy (- 1), SetShowScript (\<not> showScript)}"
  by (auto simp add: renderAudioPlayer_def comp_def split: option.splits if_splits)

lemma components_renderBookAutocomplete:
  "components (renderBookAutocomplete className s) = []"
  by (simp add: renderBookAutocomplete_def comp_def split_def)

lemma handlers_renderBookAutocomplete:
  "handlers (renderBookAutocomplete className s)
     = [HandleInputChange, HandleKeyDown, OnFocus, OnBlur]
       @ (if isOpen s
          then concat (map (\<lambda>(index, selected).
                  [SelectSuggestion index selected, HoverSuggestion index selected])
                (enumerate 0 (suggestions s)))
          else [])"
  by (simp add: renderBookAutocomplete_def comp_def split_def)

lemma SelectSuggestion_rendered:
  "SelectSuggestion i b \<in> set (handlers (renderBookAutocomplete className s))
     \<longleftrightarrow> isOpen s \<and> i < length (suggestions s) \<and> suggestions s ! i = b"
  by (auto simp add: handlers_renderBookAutocomplete in_set_enumerate_eq)

subsection \<open>The paths that match\<close>

lemma patterns:
  "pattern ''/'' = ''/''" "pattern ''/book'' = ''/book''" "pattern ''/player'' = ''/player''"
  by code_simp+

lemma canonical_second:
  "canonicalize CHR ''b'' \<noteq> CHR ''/''" "canonicalize CHR ''p'' \<noteq> CHR ''/''"
  "canonicalize CHR ''b'' \<noteq> canonicalize CHR ''p''"
  by code_simp+

lemma matchPath_second:
  assumes "matchPath path pathname" "1 < length (pattern path)"
  shows "1 < length pathname \<and> canonicalize (pathname ! 1) = canonicalize (pattern path ! 1)"
proof -
  from assms have len: "1 < length pathname"
    and eq: "map canonicalize (take (length (pattern path)) pathname)
      = map canonicalize (pattern path)"
    by (simp_all add: matchPath_def)
  from eq have "map canonicalize (take (length (pattern path)) pathname) ! 1
      = map canonicalize (pattern path) ! 1"
    by simp
  with assms(2) len show ?thesis
    by simp
qed

lemma matchPath_root:
  assumes "matchPath ''/'' pathname" "1 < length pathname"
  shows "canonicalize (pathname ! 1) = CHR ''/''"
proof -
  from assms(2) have "drop 1 pathname ! 0 \<in> set (drop 1 pathname)"
    by (intro nth_mem) simp
  with assms(2) have "pathname ! 1 \<in> set (drop 1 pathname)"
    by simp
  with assms(1) have "pathname ! 1 = CHR ''/''"
    by (simp add: matchPath_def patterns)
  moreover have "canonicalize CHR ''/'' = CHR ''/''"
    by code_simp
  ultimately show ?thesis
    by simp
qed

lemma matchRoutes_main:
  "length (matchRoutes (routesOf main) pathname) \<le> 1"
proof -
  have second: "pattern ''/book'' ! 1 = CHR ''b''" "pattern ''/player'' ! 1 = CHR ''p''"
    "1 < length (pattern ''/book'')" "1 < length (pattern ''/player'')"
    by (simp_all add: patterns)
  have "\<not> (matchPath ''/'' pathname \<and> matchPath ''/book'' pathname)"
    using matchPath_second [of "''/book''" pathname] matchPath_root [of pathname]
      second canonical_second by auto
  moreover have "\<not> (matchPath ''/'' pathname \<and> matchPath ''/player'' pathname)"
    using matchPath_second [of "''/player''" pathname] matchPath_root [of pathname]
      second canonical_second by auto
  moreover have "\<not> (matchPath ''/book'' pathname \<and> matchPath ''/player'' pathname)"
    using matchPath_second [of "''/book''" pathname] matchPath_second [of "''/player''" pathname]
      second canonical_second by auto
  ultimately show ?thesis
    by (auto simp add: routesOf_main matchRoutes_def)
qed

lemma matchRoutes_paths:
  "matchRoutes (routesOf main) ''/'' = [App]"
  "matchRoutes (routesOf main) ''/book'' = [BookDetails]"
  "matchRoutes (routesOf main) ''/player'' = [AudioPlayer]"
  unfolding routesOf_main by code_simp+

subsection \<open>The calls of \<open>navigate\<close>\<close>

lemma navigations_handleSummary:
  "navigations (handleSummary b pdfReply chapterReply scriptReply) = []
   \<or> (\<exists>p. navigations (handleSummary b pdfReply chapterReply scriptReply)
          = [(''/player'', PlayerState p)] \<and> book p = b)"
  by (simp add: handleSummary_def openPlayer_def Let_def split: sum.splits)

lemma navigationsOf_views:
  assumes "h \<in> set (handlers (renderApp showContent))
       \<union> set (handlers (renderBookDetails state imageLoaded imageError st))
       \<union> set (handlers (renderAudioPlayer state' showScript))"
    and "n \<in> set (navigationsOf h selected pdfReply chapterReply scriptReply)"
  shows "(\<exists>path navigationState. n = To path navigationState
            \<and> path \<in> set (map fst (routesOf main)))
         \<or> n = By (- 1)"
proof -
  consider (app) "h = Callback handleBookSelect"
    | (summary) b where "h = HandleSummary b"
    | (home) "h = NavigateTo ''/''"
    | (previous) "h = NavigateBy (- 1)"
    | (none) "h = HandleFullBook \<or> h = SetImageLoaded True \<or> h = SetImageError True
        \<or> h = SetShowScript (\<not> showScript)"
    using assms(1) handlers_renderBookDetails [of state imageLoaded imageError st]
      handlers_renderAudioPlayer [of state' showScript]
    by (auto simp add: handlers_renderApp)
  then show ?thesis
  proof cases
    case app
    with assms(2) show ?thesis
      by (simp add: handleBookSelect_def routesOf_main)
  next
    case summary
    with assms(2) navigations_handleSummary [of b pdfReply chapterReply scriptReply] show ?thesis
      by (auto simp add: routesOf_main)
  next
    case home
    with assms(2) show ?thesis
      by (simp add: routesOf_main)
  next
    case previous
    with assms(2) show ?thesis
      by simp
  next
    case none
    with assms(2) show ?thesis
      by auto
  qed
qed

lemma handle_emits:
  assumes "a \<in> set (fst (handle onSelect e s))"
  shows "\<exists>b\<in>set (suggestions s). a \<in> set (onSelect b)"
proof (cases e)
  case (KeyDown k)
  with assms show ?thesis
    by (cases k)
      (auto simp: handle_def handleKeyDown_def selectSuggestion_def split: if_splits)
next
  case (Click i)
  with assms show ?thesis
    by (auto simp: handle_def selectSuggestion_def split: if_splits)
qed (use assms in \<open>simp_all add: handle_def split: if_splits\<close>)

subsection \<open>The three views and the selection\<close>

text \<open>
  Claim C8. The tree of \<open>main.jsx\<close> has three routes: \<open>/\<close> for the home screen \<open>App\<close>,
  \<open>/book\<close> for \<open>BookDetails\<close> and \<open>/player\<close> for \<open>AudioPlayer\<close>; each of the three paths
  matches its route, and no path matches two routes. In every state the home screen
  renders one component, the search input \<open>BookAutocomplete\<close> with \<open>handleBookSelect\<close> as
  its \<open>onSelect\<close>, and the other views and the search input render none. Every call of
  \<open>navigate\<close> that a function of the three views makes is to the path of a route, or one
  entry back in the history. \<open>handleBookSelect\<close> navigates to \<open>/book\<close> with the selected
  book in the state; the search input calls it when a suggestion of the list is clicked,
  or chosen with Enter or Tab, and causes no other navigation.
\<close>

theorem routes_and_selection:
  "routesOf main = [(''/'', App), (''/book'', BookDetails), (''/player'', AudioPlayer)]
   \<and> matchRoutes (routesOf main) ''/'' = [App]
   \<and> matchRoutes (routesOf main) ''/book'' = [BookDetails]
   \<and> matchRoutes (routesOf main) ''/player'' = [AudioPlayer]
   \<and> length (matchRoutes (routesOf main) pathname) \<le> 1
   \<and> components (renderApp showContent)
       = [(BookAutocomplete, [(''onSelect'', Handler (Callback handleBookSelect))])]
   \<and> components (renderBookDetails state imageLoaded imageError st) = []
   \<and> components (renderAudioPlayer state showScript) = []
   \<and> components (renderBookAutocomplete className s) = []
   \<and> (\<forall>h\<in>set (handlers (renderApp showContent))
            \<union> set (handlers (renderBookDetails state imageLoaded imageError st))
            \<union> set (handlers (renderAudioPlayer state showScript)).
         \<forall>n\<in>set (navigationsOf h selected pdfReply chapterReply scriptReply).
           (\<exists>path navigationState. n = To path navigationState
               \<and> path \<in> set (map fst (routesOf main)))
           \<or> n = By (- 1))
   \<and> navigationsOf (Callback handleBookSelect) selected pdfReply chapterReply scriptReply
       = [To ''/book'' (Some (BookState selected))]
   \<and> fst (selectSuggestion handleBookSelect selected s)
       = [Navigate ''/book'' (BookState selected)]
   \<and> (SelectSuggestion i b \<in> set (handlers (renderBookAutocomplete className s))
        \<longleftrightarrow> isOpen s \<and> i < length (suggestions s) \<and> suggestions s ! i = b)
   \<and> (SelectSuggestion i b \<in> set (handlers (renderBookAutocomplete className s))
        \<and> dispatches (SelectSuggestion i b) e \<longrightarrow>
        fst (handle handleBookSelect e s) = [Navigate ''/book'' (BookState b)])
   \<and> (isOpen s \<and> i < length (suggestions s) \<longrightarrow>
        fst (handle handleBookSelect (Click i) s)
          = [Navigate ''/book'' (BookState (suggestions s ! i))])
   \<and> (isOpen s \<and> 0 \<le> activeIndex s \<and> activeIndex s < int (length (suggestions s))
        \<and> (k = Enter \<or> k = Tab) \<longrightarrow>
        fst (handle handleBookSelect (KeyDown k) s)
          = [Navigate ''/book'' (BookState (suggestions s ! nat (activeIndex s)))])
   \<and> (\<forall>a\<in>set (fst (handle handleBookSelect e s)).
         \<exists>b\<in>set (suggestions s). a = Navigate ''/book'' (BookState b))"
proof -
  have routes: "routesOf main = [(''/'', App), (''/book'', BookDetails), (''/player'', AudioPlayer)]"
    "matchRoutes (routesOf main) ''/'' = [App]"
    "matchRoutes (routesOf main) ''/book'' = [BookDetails]"
    "matchRoutes (routesOf main) ''/player'' = [AudioPlayer]"
    "length (matchRoutes (routesOf main) pathname) \<le> 1"
    by (simp_all only: routesOf_main [symmetric] matchRoutes_paths matchRoutes_main)
  have rendered: "components (renderApp showContent)
       = [(BookAutocomplete, [(''onSelect'', Handler (Callback handleBookSelect))])]"
    "components (renderBookDetails state imageLoaded imageError st) = []"
    "components (renderAudioPlayer state showScript) = []"
    "components (renderBookAutocomplete className s) = []"
    by (simp_all only: components_renderApp components_renderBookDetails
        components_renderAudioPlayer components_renderBookAutocomplete)
  have targets: "\<forall>h\<in>set (handlers (renderApp showContent))
            \<union> set (handlers (renderBookDetails state imageLoaded imageError st))
            \<union> set (handlers (renderAudioPlayer state showScript)).
         \<forall>n\<in>set (navigationsOf h selected pdfReply chapterReply scriptReply).
           (\<exists>path navigationState. n = To path navigationState
               \<and> path \<in> set (map fst (routesOf main)))
           \<or> n = By (- 1)"
    using navigationsOf_views by blast
  have callback: "navigationsOf (Callback handleBookSelect) selected pdfReply chapterReply scriptReply
       = [To ''/book'' (Some (BookState selected))]"
    by (simp add: handleBookSelect_def)
  have select: "fst (selectSuggestion handleBookSelect selected s)
       = [Navigate ''/book'' (BookState selected)]"
    by (simp add: selectSuggestion_def handleBookSelect_def)
  have listed: "SelectSuggestion i b \<in> set (handlers (renderBookAutocomplete className s))
        \<longleftrightarrow> isOpen s \<and> i < length (suggestions s) \<and> suggestions s ! i = b"
    by (rule SelectSuggestion_rendered)
  have clicked: "SelectSuggestion i b \<in> set (handlers (renderBookAutocomplete className s))
        \<and> dispatches (SelectSuggestion i b) e \<longrightarrow>
        fst (handle handleBookSelect e s) = [Navigate ''/book'' (BookState b)]"
    by (auto simp add: SelectSuggestion_rendered dispatches_def handle_def selectSuggestion_def
        handleBookSelect_def)
  have click: "isOpen s \<and> i < length (suggestions s) \<longrightarrow>
        fst (handle handleBookSelect (Click i) s)
          = [Navigate ''/book'' (BookState (suggestions s ! i))]"
    by (simp add: handle_def selectSuggestion_def handleBookSelect_def)
  have keys: "isOpen s \<and> 0 \<le> activeIndex s \<and> activeIndex s < int (length (suggestions s))
        \<and> (k = Enter \<or> k = Tab) \<longrightarrow>
        fst (handle handleBookSelect (KeyDown k) s)
          = [Navigate ''/book'' (BookState (suggestions s ! nat (activeIndex s)))]"
    by (auto simp add: handle_def handleKeyDown_def selectSuggestion_def handleBookSelect_def)
  have only: "\<forall>a\<in>set (fst (handle handleBookSelect e s)).
         \<exists>b\<in>set (suggestions s). a = Navigate ''/book'' (BookState b)"
    using handle_emits [of _ handleBookSelect e s] by (auto simp: handleBookSelect_def)
  from routes rendered targets callback select listed clicked click keys only show ?thesis
    by (intro conjI)
qed

theorem routes_and_selection_witness:
  "HandleSummary supermanBook
     \<in> set (handlers (renderBookDetails (Some (BookState supermanBook)) False False
         \<lparr> isSearching = False, searchStep = [], downloadError = None \<rparr>))
   \<and> navigationsOf (HandleSummary supermanBook) supermanBook
       (Ok (Json \<lparr> pdfData.cached = False, pages = 312 \<rparr>))
       (Ok (Json \<lparr> chapterData.cached = True, start_page = 9, end_page = 31 \<rparr>))
       (Ok (Json \<lparr> script = Some ''Naval: Hello'', naval_lines = 1, chris_lines = 0 \<rparr>))
     = [To ''/player'' (Some (PlayerState \<lparr> book = supermanBook,
          pdfInfo = \<lparr> pdfData.cached = False, pages = 312 \<rparr>,
          chapterInfo = \<lparr> chapterData.cached = True, start_page = 9, end_page = 31 \<rparr>,
          scriptInfo = \<lparr> script = Some ''Naval: Hello'', naval_lines = 1, chris_lines = 0 \<rparr> \<rparr>))]
   \<and> ''/player'' \<in> set (map fst (routesOf main))
   \<and> matchRoutes (routesOf main) ''/Book/'' = [BookDetails]
   \<and> matchRoutes (routesOf main) ''/books'' = []
   \<and> SelectSuggestion 0 supermanBook
       \<in> set (handlers (renderBookAutocomplete []
           ((mount Map.empty)\<lparr> suggestions := [supermanBook], isOpen := True \<rparr>)))
   \<and> fst (handle handleBookSelect (Click 0)
       ((mount Map.empty)\<lparr> suggestions := [supermanBook], isOpen := True \<rparr>))
     = [Navigate ''/book'' (BookState supermanBook)]
   \<and> fst (handle handleBookSelect (KeyDown Enter)
       ((mount Map.empty)\<lparr> suggestions := [supermanBook], isOpen := True, activeIndex := 0 \<rparr>))
     = [Navigate ''/book'' (BookState supermanBook)]"
proof -
  define pdfReply where "pdfReply = Ok (Json \<lparr> pdfData.cached = False, pages = 312 \<rparr>)"
  define chapterReply
    where "chapterReply = Ok (Json \<lparr> chapterData.cached = True, start_page = 9, end_page = 31 \<rparr>)"
  define scriptReply where "scriptReply
    = Ok (Json \<lparr> script = Some ''Naval: Hello'', naval_lines = 1, chris_lines = 0 \<rparr>)"
  define st where "st = \<lparr> isSearching = False, searchStep = [], downloadError = None \<rparr>"
  define s where "s = (mount Map.empty)\<lparr> suggestions := [supermanBook], isOpen := True \<rparr>"
  have shown: "HandleSummary supermanBook
      \<in> set (handlers (renderBookDetails (Some (BookState supermanBook)) False False st))"
    by (simp add: renderBookDetails_def stateBook_def st_def)
  have called: "navigationsOf (HandleSummary supermanBook) supermanBook
       pdfReply chapterReply scriptReply
     = [To ''/player'' (Some (PlayerState \<lparr> book = supermanBook,
          pdfInfo = \<lparr> pdfData.cached = False, pages = 312 \<rparr>,
          chapterInfo = \<lparr> chapterData.cached = True, start_page = 9, end_page = 31 \<rparr>,
          scriptInfo = \<lparr> script = Some ''Naval: Hello'', naval_lines = 1, chris_lines = 0 \<rparr> \<rparr>))]"
    by (simp add: handleSummary_def openPlayer_def Let_def pdfReply_def chapterReply_def
        scriptReply_def)
  have opened: "isOpen s \<and> 0 < length (suggestions s) \<and> suggestions s ! 0 = supermanBook"
    "isOpen (s\<lparr> activeIndex := 0 \<rparr>) \<and> 0 \<le> activeIndex (s\<lparr> activeIndex := 0 \<rparr>)
      \<and> activeIndex (s\<lparr> activeIndex := 0 \<rparr>) < int (length (suggestions (s\<lparr> activeIndex := 0 \<rparr>)))
      \<and> suggestions (s\<lparr> activeIndex := 0 \<rparr>) ! nat (activeIndex (s\<lparr> activeIndex := 0 \<rparr>))
          = supermanBook"
    by (simp_all add: s_def)
  from routes_and_selection [of "''/player''" True "Some (BookState supermanBook)" False False st
      False "[]" s supermanBook pdfReply chapterReply scriptReply 0 supermanBook "Click 0" Enter]
    shown called opened(1)
  have "''/player'' \<in> set (map fst (routesOf main))"
    "SelectSuggestion 0 supermanBook \<in> set (handlers (renderBookAutocomplete [] s))"
    "fst (handle handleBookSelect (Click 0) s) = [Navigate ''/book'' (BookState supermanBook)]"
    by auto
  moreover from routes_and_selection [of "''/player''" True "Some (BookState supermanBook)"
      False False st False "[]" "s\<lparr> activeIndex := 0 \<rparr>" supermanBook pdfReply chapterReply
      scriptReply 0 supermanBook "Click 0" Enter] opened(2)
  have "fst (handle handleBookSelect (KeyDown Enter) (s\<lparr> activeIndex := 0 \<rparr>))
     = [Navigate ''/book'' (BookState supermanBook)]"
    by simp
  moreover have "matchRoutes (routesOf main) ''/Book/'' = [BookDetails]"
    "matchRoutes (routesOf main) ''/books'' = []"
    unfolding routesOf_main by code_simp+
  ultimately show ?thesis
    using shown called by (simp add: s_def st_def pdfReply_def chapterReply_def scriptReply_def)
qed

end
